theory Spec2Isabelle
  imports
    Main
    "HOL-Library.Char_ord"
    "HOL-Library.List_Lexorder"
    "HOL-Library.Product_Lexorder"
    "HOL-Library.Multiset"
    "HOL-Library.Monad_Syntax"
    "HOL-Library.Tree"
begin

section \<open>The fixture generator for the BST validity checker (is-valid-bst/gen-test.py)\<close>

text \<open>
  The script builds random binary search trees of employee records, optionally corrupts
  them, and writes them out level by level. The embedding follows the script function by
  function. Python objects that are mutated in place (the \<^verbatim>\<open>Node\<close> objects) live in an
  explicit store; the pseudo-random generator is an interface whose state is threaded
  through every call; loops whose termination depends on the data are partial functions
  into \<open>option\<close>, where \<open>None\<close> stands for a run that never returns.

  Outside the model: the interpreter's resource limits (recursion depth, memory) and
  failures of the file system.
\<close>

subsection \<open>Configuration\<close>

definition TESTS_FOLDER :: string where
  "TESTS_FOLDER = ''tests''"

definition START_INDEX :: int where
  "START_INDEX = 9"

definition NUM_VALID :: nat where
  "NUM_VALID = 3"

definition NUM_INVALID :: nat where
  "NUM_INVALID = 3"

definition EMPLOYEE_RANGE :: "int \<times> int" where
  "EMPLOYEE_RANGE = (20, 30)"

definition SPECIAL_RANGE :: "int \<times> int" where
  "SPECIAL_RANGE = (200, 300)"

definition DEPARTMENTS :: "string list" where
  "DEPARTMENTS = [''HR'', ''Finance'', ''Engineering'', ''Marketing'', ''Sales'', ''IT'', ''Management'']"

definition JOB_TITLES :: "string list" where
  "JOB_TITLES = [''Junior'', ''Midlevel'', ''Senior'', ''Director'', ''Executive'', ''God'']"

text \<open>\<^verbatim>\<open>string.ascii_lowercase\<close> of the Python library.\<close>

definition ascii_lowercase :: string where
  "ascii_lowercase = ''abcdefghijklmnopqrstuvwxyz''"

subsection \<open>Employees and their ordering key\<close>

record employee =
  name :: string
  department :: string
  id_in_department :: int
  job_title :: string
  salary :: int

text \<open>
  \<^verbatim>\<open>Employee.key\<close> is the tuple \<^verbatim>\<open>(department, id_in_department)\<close>. Python compares tuples
  lexicographically, strings lexicographically by code point (a proper prefix is smaller)
  and integers by value: this is the order of \<^typ>\<open>string \<times> int\<close> with the
  lexicographic orders on lists and pairs.
\<close>

type_synonym key = "string \<times> int"

definition key :: "employee \<Rightarrow> key" where
  "key e = (department e, id_in_department e)"

subsection \<open>The random generator\<close>

text \<open>
  \<^verbatim>\<open>random.Random\<close> belongs to the Python library, not to the script. It is an interface
  over a state \<open>'r\<close>; every operation returns its result and the next state.
  \<^item> \<open>randint a b\<close>: \<^verbatim>\<open>rng.randint(a, b)\<close>;
  \<^item> \<open>choice n\<close>: the position of the element that \<^verbatim>\<open>rng.choice(seq)\<close> picks in a
    sequence of length \<open>n\<close>;
  \<^item> \<open>shuffle n\<close>: the rearrangement \<^verbatim>\<open>rng.shuffle(xs)\<close> applies to a list of length
    \<open>n\<close>: position \<open>i\<close> of the shuffled list holds the element formerly at position
    \<open>perm ! i\<close>;
  \<^item> \<open>sample2 n\<close>: the positions of the two elements that \<^verbatim>\<open>rng.sample(xs, 2)\<close> draws
    from a list of length \<open>n\<close>, in the order drawn.
\<close>

record 'r random =
  randint :: "int \<Rightarrow> int \<Rightarrow> 'r \<Rightarrow> int \<times> 'r"
  choice :: "nat \<Rightarrow> 'r \<Rightarrow> nat \<times> 'r"
  shuffle :: "nat \<Rightarrow> 'r \<Rightarrow> nat list \<times> 'r"
  sample2 :: "nat \<Rightarrow> 'r \<Rightarrow> (nat \<times> nat) \<times> 'r"

text \<open>What the library documents about the results of these operations.\<close>

definition rng_ok :: "'r random \<Rightarrow> bool" where
  "rng_ok R \<longleftrightarrow>
     (\<forall>a b s. a \<le> b \<longrightarrow> a \<le> fst (randint R a b s) \<and> fst (randint R a b s) \<le> b) \<and>
     (\<forall>n s. 0 < n \<longrightarrow> fst (choice R n s) < n) \<and>
     (\<forall>n s. mset (fst (shuffle R n s)) = mset [0..<n]) \<and>
     (\<forall>n s. 2 \<le> n \<longrightarrow> fst (fst (sample2 R n s)) < n \<and> snd (fst (sample2 R n s)) < n \<and>
        fst (fst (sample2 R n s)) \<noteq> snd (fst (sample2 R n s)))"

subsection \<open>Nodes and the store\<close>

text \<open>
  A \<^verbatim>\<open>Node\<close> object has a payload and two child references, each \<^verbatim>\<open>None\<close> or a node.
  The store is the list of all node objects created so far; a reference is a position in
  it, and \<^verbatim>\<open>Node(emp)\<close> appends.
\<close>

record node =
  emp :: employee
  left :: "nat option"
  right :: "nat option"

type_synonym store = "node list"

definition Node_init :: "employee \<Rightarrow> node" where
  "Node_init e = \<lparr>emp = e, left = None, right = None\<rparr>"

subsection \<open>Tree Builder\<close>

text \<open>
  \<^verbatim>\<open>insert_node(root, emp)\<close> returns the root of the updated tree and mutates the nodes on
  the search path; the model returns the new store with it.
\<close>

partial_function (option) insert_node :: "store \<Rightarrow> nat option \<Rightarrow> employee \<Rightarrow> (store \<times> nat) option" where
  "insert_node h root e =
     (case root of
        None \<Rightarrow> Some (h @ [Node_init e], length h)
      | Some a \<Rightarrow>
          if key e < key (emp (h ! a)) then
            do { (h', l) \<leftarrow> insert_node h (left (h ! a)) e;
                 Some (h'[a := (h' ! a)\<lparr>left := Some l\<rparr>], a) }
          else
            do { (h', r) \<leftarrow> insert_node h (right (h ! a)) e;
                 Some (h'[a := (h' ! a)\<lparr>right := Some r\<rparr>], a) })"

text \<open>The loop \<^verbatim>\<open>for e in shuffled: root = insert_node(root, e)\<close>.\<close>

fun insert_all :: "store \<Rightarrow> nat option \<Rightarrow> employee list \<Rightarrow> (store \<times> nat option) option" where
  "insert_all h root [] = Some (h, root)"
| "insert_all h root (e # es) =
     do { (h', a) \<leftarrow> insert_node h root e; insert_all h' (Some a) es }"

definition build_valid_bst_from_list ::
  "'r random \<Rightarrow> store \<Rightarrow> employee list \<Rightarrow> 'r \<Rightarrow> ((store \<times> nat option) \<times> 'r) option" where
  "build_valid_bst_from_list R h employees s =
     (let (perm, s') = shuffle R (length employees) s;
          shuffled = map (\<lambda>i. employees ! i) perm
      in do { res \<leftarrow> insert_all h None shuffled; Some (res, s') })"

subsection \<open>Corruptor\<close>

text \<open>
  \<^verbatim>\<open>collect_nodes_inorder(root, out)\<close> appends the nodes (references, not payloads) to
  \<^verbatim>\<open>out\<close>; the model returns the extended list.
\<close>

partial_function (option) collect_nodes_inorder :: "store \<Rightarrow> nat option \<Rightarrow> nat list \<Rightarrow> nat list option" where
  "collect_nodes_inorder h root out =
     (case root of
        None \<Rightarrow> Some out
      | Some a \<Rightarrow>
          do { out1 \<leftarrow> collect_nodes_inorder h (left (h ! a)) out;
               collect_nodes_inorder h (right (h ! a)) (out1 @ [a]) })"

text \<open>
  \<^verbatim>\<open>a.emp, b.emp = b.emp, a.emp\<close> reads both payloads, then assigns \<^verbatim>\<open>a.emp\<close>, then
  \<^verbatim>\<open>b.emp\<close>.
\<close>

definition violate_bst :: "'r random \<Rightarrow> store \<Rightarrow> nat option \<Rightarrow> 'r \<Rightarrow> (store \<times> nat option \<times> 'r) option" where
  "violate_bst R h root s =
     do { nodes \<leftarrow> collect_nodes_inorder h root [];
          if 2 \<le> length nodes then
            (let ((i, j), s') = sample2 R (length nodes) s;
                 a = nodes ! i;
                 b = nodes ! j;
                 eb = emp (h ! b);
                 ea = emp (h ! a);
                 h1 = h[a := (h ! a)\<lparr>emp := eb\<rparr>];
                 h2 = h1[b := (h1 ! b)\<lparr>emp := ea\<rparr>]
             in Some (h2, root, s'))
          else Some (h, root, s) }"

subsection \<open>Serializer\<close>

text \<open>\<^verbatim>\<open>str\<close> of a Python integer: decimal digits, with a minus sign below zero.\<close>

definition digit_char :: "nat \<Rightarrow> char" where
  "digit_char d = ''0123456789'' ! d"

function str_nat :: "nat \<Rightarrow> string" where
  "str_nat n = (if n < 10 then [digit_char n] else str_nat (n div 10) @ [digit_char (n mod 10)])"
  by pat_completeness auto
termination
  by (relation "measure (\<lambda>n. n)") auto

definition str_int :: "int \<Rightarrow> string" where
  "str_int i = (if i < 0 then CHR ''-'' # str_nat (nat (- i)) else str_nat (nat i))"

text \<open>\<^verbatim>\<open>Employee.__str__\<close>.\<close>

definition employee_str :: "employee \<Rightarrow> string" where
  "employee_str e =
     name e @ '','' @ department e @ '','' @ str_int (id_in_department e) @ '','' @
     job_title e @ '','' @ str_int (salary e)"

text \<open>\<^verbatim>\<open>" ".join(parts)\<close>.\<close>

fun join_space :: "string list \<Rightarrow> string" where
  "join_space [] = []"
| "join_space [p] = p"
| "join_space (p # q # ps) = p @ '' '' @ join_space (q # ps)"

text \<open>
  The \<^verbatim>\<open>for node in current_level\<close> loop: it extends \<^verbatim>\<open>line_parts\<close> and
  \<^verbatim>\<open>next_level\<close>, both empty at its start.
\<close>

definition scan_level :: "store \<Rightarrow> nat option list \<Rightarrow> string list \<times> nat option list" where
  "scan_level h current_level =
     fold (\<lambda>node (line_parts, next_level).
             case node of
               None \<Rightarrow> (line_parts @ [''null''], next_level)
             | Some a \<Rightarrow> (line_parts @ [employee_str (emp (h ! a))],
                          next_level @ [left (h ! a), right (h ! a)]))
          current_level ([], [])"

text \<open>\<^verbatim>\<open>while next_level and next_level[-1] is None: next_level.pop()\<close>.\<close>

function pop_trailing_none :: "nat option list \<Rightarrow> nat option list" where
  "pop_trailing_none next_level =
     (if next_level \<noteq> [] \<and> last next_level = None
      then pop_trailing_none (butlast next_level) else next_level)"
  by pat_completeness auto
termination
  by (relation "measure length") auto

text \<open>The \<^verbatim>\<open>while current_level\<close> loop. On a store with a cycle it never ends.\<close>

partial_function (option) serialize_loop :: "store \<Rightarrow> nat option list \<Rightarrow> string list \<Rightarrow> string list option" where
  "serialize_loop h current_level result_lines =
     (if current_level = [] then Some result_lines
      else
        (let (line_parts, next_level) = scan_level h current_level;
             result_lines' =
               (if \<exists>part \<in> set line_parts. part \<noteq> ''null''
                then result_lines @ [join_space line_parts] else result_lines)
         in serialize_loop h (pop_trailing_none next_level) result_lines'))"

definition serialize_tree :: "store \<Rightarrow> nat option \<Rightarrow> string list option" where
  "serialize_tree h root =
     (case root of None \<Rightarrow> Some [] | Some a \<Rightarrow> serialize_loop h [Some a] [])"

subsection \<open>Record Generator\<close>

text \<open>
  \<^verbatim>\<open>"".join(rng.choice(string.ascii_lowercase) for _ in range(length))\<close>: one call of
  \<^verbatim>\<open>choice\<close> per character, first character first.
\<close>

fun random_string :: "'r random \<Rightarrow> 'r \<Rightarrow> nat \<Rightarrow> string \<times> 'r" where
  "random_string R s 0 = ([], s)"
| "random_string R s (Suc n) =
     (let (i, s1) = choice R (length ascii_lowercase) s;
          (cs, s2) = random_string R s1 n
      in (ascii_lowercase ! i # cs, s2))"

text \<open>
  \<^verbatim>\<open>generate_employee(rng, used_keys)\<close> returns the employee; the model returns the
  updated set of used keys and the generator state with it. The \<^verbatim>\<open>while True\<close> loop
  starts over (\<^verbatim>\<open>continue\<close>) when the key is taken.
\<close>

partial_function (option) generate_employee ::
    "'r random \<Rightarrow> 'r \<Rightarrow> key set \<Rightarrow> (employee \<times> key set \<times> 'r) option" where
  "generate_employee R s used_keys =
     (let (len, s1) = randint R 1 5 s;
          (nm, s2) = random_string R s1 (nat len);
          (d, s3) = choice R (length DEPARTMENTS) s2;
          dept = DEPARTMENTS ! d;
          (ident, s4) = randint R 1 200 s3;
          k = (dept, ident)
      in if k \<in> used_keys then generate_employee R s4 used_keys
         else
           (let used_keys' = insert k used_keys;
                (j, s5) = choice R (length JOB_TITLES) s4;
                title = JOB_TITLES ! j;
                (sal, s6) = randint R 1000 5000 s5
            in Some (\<lparr>name = nm, department = dept, id_in_department = ident,
                        job_title = title, salary = sal\<rparr>, used_keys', s6)))"

subsection \<open>Fixture Orchestrator\<close>

text \<open>
  The file system: the directories that exist and the content of every file.
  \<^verbatim>\<open>rng.randint(a, b)\<close> raises \<^verbatim>\<open>ValueError\<close> on an empty range.
\<close>

record filesystem =
  dirs :: "string set"
  files :: "string \<rightharpoonup> string"

datatype error = ValueError

text \<open>\<^verbatim>\<open>[generate_employee(rng, used_keys) for _ in range(num_emps)]\<close>.\<close>

fun generate_employees :: "'r random \<Rightarrow> nat \<Rightarrow> 'r \<Rightarrow> key set \<Rightarrow> (employee list \<times> key set \<times> 'r) option" where
  "generate_employees R 0 s used_keys = Some ([], used_keys, s)"
| "generate_employees R (Suc n) s used_keys =
     do { (e, used_keys', s') \<leftarrow> generate_employee R s used_keys;
          (es, used_keys'', s'') \<leftarrow> generate_employees R n s' used_keys';
          Some (e # es, used_keys'', s'') }"

definition test_dir :: "int \<Rightarrow> string" where
  "test_dir test_index = TESTS_FOLDER @ ''/'' @ ''test'' @ str_int test_index"

definition write_lines :: "string list \<Rightarrow> string" where
  "write_lines ls = concat (map (\<lambda>line. line @ [CHR 0x0A]) ls)"

text \<open>
  \<^verbatim>\<open>generate_testcase(is_valid, test_index, rng, emp_range)\<close>. The nodes of a fixture are
  fresh objects and are dropped when the function returns, so the tree is built in an
  empty store.
\<close>

definition generate_testcase ::
    "'r random \<Rightarrow> bool \<Rightarrow> int \<Rightarrow> 'r \<Rightarrow> (int \<times> int) option \<Rightarrow> filesystem \<Rightarrow> (error + filesystem \<times> 'r) option" where
  "generate_testcase R is_valid test_index s emp_range_opt fs =
     (let emp_range = (case emp_range_opt of None \<Rightarrow> EMPLOYEE_RANGE | Some r \<Rightarrow> r)
      in if snd emp_range < fst emp_range then Some (Inl ValueError)
         else
           (let (num_emps, s1) = randint R (fst emp_range) (snd emp_range) s
            in do {
              (employees, used_keys, s2) \<leftarrow> generate_employees R (nat num_emps) s1 {};
              ((h, root), s3) \<leftarrow> build_valid_bst_from_list R [] employees s2;
              (h', root', s4) \<leftarrow> (if \<not> is_valid then violate_bst R h root s3 else Some (h, root, s3));
              lines \<leftarrow> serialize_tree h' root';
              Some (Inr
                (fs\<lparr>dirs := insert (test_dir test_index) (insert TESTS_FOLDER (dirs fs)),
                    files := (files fs)
                      (test_dir test_index @ ''/input.txt'' \<mapsto> write_lines lines,
                       test_dir test_index @ ''/output.txt'' \<mapsto>
                         (if is_valid then ''true'' @ [CHR 0x0A] else ''false'' @ [CHR 0x0A]))\<rparr>,
                 s4)) }))"

section \<open>What a store holds\<close>

text \<open>
  \<open>tree_at h p t\<close>: following the child references of the store \<open>h\<close> from the reference
  \<open>p\<close> unfolds into the finite binary tree \<open>t\<close> of node references. A store with a cycle
  below \<open>p\<close> unfolds into no tree.
\<close>

primrec tree_at :: "store \<Rightarrow> nat option \<Rightarrow> nat tree \<Rightarrow> bool" where
  "tree_at h p Leaf \<longleftrightarrow> p = None"
| "tree_at h p (Node l a r) \<longleftrightarrow>
     p = Some a \<and> a < length h \<and> tree_at h (left (h ! a)) l \<and> tree_at h (right (h ! a)) r"

text \<open>The store holds a tree at \<open>p\<close>: the unfolding exists and no node occurs in it twice.\<close>

definition is_tree :: "store \<Rightarrow> nat option \<Rightarrow> nat tree \<Rightarrow> bool" where
  "is_tree h p t \<longleftrightarrow> tree_at h p t \<and> distinct (inorder t)"

text \<open>The payloads and the keys of a tree of references.\<close>

definition payloads :: "store \<Rightarrow> nat tree \<Rightarrow> employee tree" where
  "payloads h t = map_tree (\<lambda>a. emp (h ! a)) t"

definition keys :: "store \<Rightarrow> nat tree \<Rightarrow> key tree" where
  "keys h t = map_tree (\<lambda>a. key (emp (h ! a))) t"

text \<open>Paths: a sequence of steps to the left or right child, followed in the store.\<close>

datatype step = ToLeft | ToRight

fun follow :: "store \<Rightarrow> nat option \<Rightarrow> step list \<Rightarrow> nat option" where
  "follow h p [] = p"
| "follow h None (d # ds) = None"
| "follow h (Some a) (d # ds) =
     follow h (case d of ToLeft \<Rightarrow> left (h ! a) | ToRight \<Rightarrow> right (h ! a)) ds"

definition reachable :: "store \<Rightarrow> nat option \<Rightarrow> nat set" where
  "reachable h p = {a. \<exists>ds. follow h p ds = Some a}"

text \<open>The same walk in a tree of references.\<close>

fun walk :: "nat tree \<Rightarrow> step list \<Rightarrow> nat option" where
  "walk Leaf ds = None"
| "walk (Node l a r) [] = Some a"
| "walk (Node l a r) (d # ds) = walk (case d of ToLeft \<Rightarrow> l | ToRight \<Rightarrow> r) ds"

text \<open>
  Insertion on the unfolding: the reference \<open>n\<close> of a record with key \<open>k\<close> goes where
  \<^const>\<open>insert_node\<close> puts it, \<open>kf\<close> giving the key stored at each reference.
\<close>

fun ins :: "(nat \<Rightarrow> key) \<Rightarrow> key \<Rightarrow> nat \<Rightarrow> nat tree \<Rightarrow> nat tree" where
  "ins kf k n Leaf = Node Leaf n Leaf"
| "ins kf k n (Node l a r) =
     (if k < kf a then Node (ins kf k n l) a r else Node l a (ins kf k n r))"

section \<open>Levels and slots of the serializer\<close>

text \<open>
  The slots of the serializer, on the unfolding. A slot is a subtree, \<open>Leaf\<close> for an
  absent child. Only present nodes have child slots.
\<close>

fun child_slots :: "nat tree \<Rightarrow> nat tree list" where
  "child_slots Leaf = []"
| "child_slots (Node l a r) = [l, r]"

definition next_slots :: "nat tree list \<Rightarrow> nat tree list" where
  "next_slots ts = concat (map child_slots ts)"

text \<open>A slot list without its trailing absent slots.\<close>

definition trim_slots :: "nat tree list \<Rightarrow> nat tree list" where
  "trim_slots ts = rev (dropWhile (\<lambda>u. u = Leaf) (rev ts))"

text \<open>All slots of level \<open>k\<close>, left to right, none dropped.\<close>

primrec level_slots :: "nat tree \<Rightarrow> nat \<Rightarrow> nat tree list" where
  "level_slots t 0 = [t]"
| "level_slots t (Suc k) = next_slots (level_slots t k)"

text \<open>The token of a slot and the tokens of the line of level \<open>k\<close>.\<close>

definition render :: "store \<Rightarrow> nat tree \<Rightarrow> string" where
  "render h u = (case u of Leaf \<Rightarrow> ''null'' | Node l a r \<Rightarrow> employee_str (emp (h ! a)))"

definition level_tokens :: "store \<Rightarrow> nat tree \<Rightarrow> nat \<Rightarrow> string list" where
  "level_tokens h t k = map (render h) (trim_slots (level_slots t k))"

definition all_tokens :: "store \<Rightarrow> nat tree \<Rightarrow> string list list" where
  "all_tokens h t = map (level_tokens h t) [0..<height t]"

text \<open>The nodes present in a slot list, left to right.\<close>

fun slot_node :: "nat tree \<Rightarrow> nat list" where
  "slot_node Leaf = []"
| "slot_node (Node l a r) = [a]"

definition present_nodes :: "nat tree list \<Rightarrow> nat list" where
  "present_nodes ts = concat (map slot_node ts)"

text \<open>
  The tokens of a line: the line cut at every space, as \<^verbatim>\<open>line.split(" ")\<close> does.
\<close>

fun split_space :: "string \<Rightarrow> string list" where
  "split_space [] = [[]]"
| "split_space (c # cs) =
     (if c = CHR '' '' then [] # split_space cs
      else (case split_space cs of [] \<Rightarrow> [[c]] | w # ws \<Rightarrow> (c # w) # ws))"

text \<open>The token and the child references of a slot, read from the store.\<close>

definition slot_token :: "store \<Rightarrow> nat option \<Rightarrow> string" where
  "slot_token h p = (case p of None \<Rightarrow> ''null'' | Some a \<Rightarrow> employee_str (emp (h ! a)))"

definition slot_children :: "store \<Rightarrow> nat option \<Rightarrow> nat option list" where
  "slot_children h p = (case p of None \<Rightarrow> [] | Some a \<Rightarrow> [left (h ! a), right (h ! a)])"

text \<open>The recursion equations of the loops are unfolded by hand.\<close>

declare pop_trailing_none.simps [simp del]
declare str_nat.simps [simp del]

section \<open>The attempts of the record generator\<close>

text \<open>
  One attempt of \<^const>\<open>generate_employee\<close>, up to the test of the key: the draws for the
  name (its length, then its characters), the department and the id, in this order.
\<close>

definition draw_candidate :: "'r random \<Rightarrow> 'r \<Rightarrow> (string \<times> string \<times> int) \<times> 'r" where
  "draw_candidate R s =
     (let (len, s1) = randint R 1 5 s;
          (nm, s2) = random_string R s1 (nat len);
          (d, s3) = choice R (length DEPARTMENTS) s2;
          (ident, s4) = randint R 1 200 s3
      in ((nm, DEPARTMENTS ! d, ident), s4))"

definition candidate_key :: "'r random \<Rightarrow> 'r \<Rightarrow> key" where
  "candidate_key R s = snd (fst (draw_candidate R s))"

text \<open>The generator state after \<open>n\<close> attempts.\<close>

definition after_attempts :: "'r random \<Rightarrow> nat \<Rightarrow> 'r \<Rightarrow> 'r" where
  "after_attempts R n s = ((\<lambda>s. snd (draw_candidate R s)) ^^ n) s"

text \<open>The draws that follow the commit of the key: job title, then salary.\<close>

definition complete_record :: "'r random \<Rightarrow> (string \<times> string \<times> int) \<times> 'r \<Rightarrow> employee \<times> 'r" where
  "complete_record R c =
     (let ((nm, dept, ident), s4) = c;
          (j, s5) = choice R (length JOB_TITLES) s4;
          (sal, s6) = randint R 1000 5000 s5
      in (\<lparr>name = nm, department = dept, id_in_department = ident,
            job_title = JOB_TITLES ! j, salary = sal\<rparr>, s6))"

text \<open>
  The generator as the specification words it: candidate keys are drawn until one is not
  in use, the key is committed, and then the name, the job title and the salary are drawn.
\<close>

partial_function (option) generate_as_specified ::
    "'r random \<Rightarrow> 'r \<Rightarrow> key set \<Rightarrow> (employee \<times> key set \<times> 'r) option" where
  "generate_as_specified R s used_keys =
     (let (d, s1) = choice R (length DEPARTMENTS) s;
          dept = DEPARTMENTS ! d;
          (ident, s2) = randint R 1 200 s1;
          k = (dept, ident)
      in if k \<in> used_keys then generate_as_specified R s2 used_keys
         else
           (let used_keys' = insert k used_keys;
                (len, s3) = randint R 1 5 s2;
                (nm, s4) = random_string R s3 (nat len);
                (j, s5) = choice R (length JOB_TITLES) s4;
                title = JOB_TITLES ! j;
                (sal, s6) = randint R 1000 5000 s5
            in Some (\<lparr>name = nm, department = dept, id_in_department = ident,
                        job_title = title, salary = sal\<rparr>, used_keys', s6)))"

section \<open>Concrete inputs\<close>

text \<open>
  A generator that replays a tape of raw numbers, one per call, reduced into the range
  asked for; once the tape is used up it returns the smallest result. It is used to run
  the functions on concrete inputs.
\<close>

definition tape_rng :: "nat list random" where
  "tape_rng =
     \<lparr>randint = (\<lambda>a b s. case s of [] \<Rightarrow> (a, []) | x # xs \<Rightarrow> (a + int (x mod nat (b - a + 1)), xs)),
      choice = (\<lambda>n s. case s of [] \<Rightarrow> (0, []) | x # xs \<Rightarrow> (x mod n, xs)),
      shuffle = (\<lambda>n s. case s of [] \<Rightarrow> ([0..<n], []) | x # xs \<Rightarrow> (rotate x [0..<n], xs)),
      sample2 = (\<lambda>n s. case s of [] \<Rightarrow> ((0, 1), []) | x # xs \<Rightarrow> ((x mod n, Suc (x mod n) mod n), xs))\<rparr>"

text \<open>Three employees with pairwise distinct keys.\<close>

definition emp3 :: "employee list" where
  "emp3 =
     [\<lparr>name = ''ann'', department = ''HR'', id_in_department = 7, job_title = ''Senior'', salary = 2000\<rparr>,
      \<lparr>name = ''bob'', department = ''Finance'', id_in_department = 7, job_title = ''Junior'', salary = 1500\<rparr>,
      \<lparr>name = ''cy'', department = ''HR'', id_in_department = 3, job_title = ''God'', salary = 5000\<rparr>]"

text \<open>
  A record of department HR, a store of two nodes (a root and its left child) and the
  unfolding of that store.
\<close>

definition hr_record :: "string \<Rightarrow> int \<Rightarrow> string \<Rightarrow> int \<Rightarrow> employee" where
  "hr_record nm i title sal =
     \<lparr>name = nm, department = ''HR'', id_in_department = i, job_title = title, salary = sal\<rparr>"

definition two_nodes :: "employee \<Rightarrow> employee \<Rightarrow> store" where
  "two_nodes root_emp child_emp =
     [\<lparr>emp = root_emp, left = Some 1, right = None\<rparr>,
      \<lparr>emp = child_emp, left = None, right = None\<rparr>]"

definition two_shape :: "nat tree" where
  "two_shape = Node (Node Leaf 1 Leaf) 0 Leaf"

definition hr1 :: employee where
  "hr1 = hr_record ''name1'' 1 ''Junior'' 1000"

definition hr2 :: employee where
  "hr2 = hr_record ''name2'' 2 ''Senior'' 2000"

text \<open>A tape on which the order of the draws shows.\<close>

definition order_tape :: "nat list" where
  "order_tape = [0, 0, 1, 4, 2, 7]"

text \<open>A store of two nodes, a root and its right child, and its unfolding.\<close>

definition right_child_store :: "employee \<Rightarrow> employee \<Rightarrow> store" where
  "right_child_store root_emp child_emp =
     [\<lparr>emp = root_emp, left = None, right = Some 1\<rparr>,
      \<lparr>emp = child_emp, left = None, right = None\<rparr>]"

definition right_child_shape :: "nat tree" where
  "right_child_shape = Node Leaf 0 (Node Leaf 1 Leaf)"

section \<open>The builder yields a tree in the store\<close>

subsection \<open>Unfoldings\<close>

lemma tree_at_cong:
  "tree_at h p t \<Longrightarrow> length h \<le> length h' \<Longrightarrow> (\<forall>b \<in> set_tree t. h' ! b = h ! b) \<Longrightarrow> tree_at h' p t"
  by (induction t arbitrary: p) auto

lemma set_tree_ins: "set_tree (ins kf k n t) = insert n (set_tree t)"
  by (induction t) auto

lemma tree_at_bound: "tree_at h p t \<Longrightarrow> a \<in> set_tree t \<Longrightarrow> a < length h"
  by (induction t arbitrary: p) auto

lemma insert_node_refines:
  "tree_at h p t \<Longrightarrow> distinct (inorder t) \<Longrightarrow>
   \<exists>h' a'. insert_node h p e = Some (h', a') \<and>
     length h' = Suc (length h) \<and>
     emp (h' ! length h) = e \<and>
     (\<forall>b < length h. emp (h' ! b) = emp (h ! b)) \<and>
     (\<forall>b < length h. b \<notin> set_tree t \<longrightarrow> h' ! b = h ! b) \<and>
     tree_at h' (Some a') (ins (\<lambda>a. key (emp (h ! a))) (key e) (length h) t)"
proof (induction t arbitrary: p)
  case Leaf
  then show ?case
    by (simp add: insert_node.simps Node_init_def nth_append)
next
  case (Node l a r)
  let ?kf = "\<lambda>a. key (emp (h ! a))"
  from Node.prems have p: "p = Some a" and a: "a < length h"
    and tl: "tree_at h (left (h ! a)) l" and tr: "tree_at h (right (h ! a)) r"
    and dl: "distinct (inorder l)" and dr: "distinct (inorder r)"
    and al: "a \<notin> set_tree l" and ar: "a \<notin> set_tree r"
    and disj: "set_tree l \<inter> set_tree r = {}"
    by auto
  show ?case
  proof (cases "key e < ?kf a")
    case True
    from Node.IH(1)[OF tl dl] obtain h1 l' where
      call: "insert_node h (left (h ! a)) e = Some (h1, l')" and
      len: "length h1 = Suc (length h)" and
      new: "emp (h1 ! length h) = e" and
      emps: "\<forall>b < length h. emp (h1 ! b) = emp (h ! b)" and
      frame: "\<forall>b < length h. b \<notin> set_tree l \<longrightarrow> h1 ! b = h ! b" and
      sub: "tree_at h1 (Some l') (ins ?kf (key e) (length h) l)"
      by blast
    let ?h' = "h1[a := (h1 ! a)\<lparr>left := Some l'\<rparr>]"
    have res: "insert_node h p e = Some (?h', a)"
      using True p call by (subst insert_node.simps) simp
    have ha: "h1 ! a = h ! a" using frame a al by simp
    have 1: "tree_at ?h' (Some l') (ins ?kf (key e) (length h) l)"
      using a al len by (intro tree_at_cong[OF sub]) (auto simp: set_tree_ins nth_list_update)
    have 2: "tree_at ?h' (right (h ! a)) r"
    proof (rule tree_at_cong[OF tr])
      show "length h \<le> length ?h'" using len by simp
      show "\<forall>b\<in>set_tree r. ?h' ! b = h ! b"
      proof
        fix b assume "b \<in> set_tree r"
        then have "b \<noteq> a" "b \<notin> set_tree l" "b < length h"
          using ar disj tree_at_bound[OF tr] by auto
        then show "?h' ! b = h ! b" using frame by simp
      qed
    qed
    have "tree_at ?h' (Some a) (ins ?kf (key e) (length h) (Node l a r))"
      using True a len 1 2 ha by simp
    moreover have "\<forall>b < length h. emp (?h' ! b) = emp (h ! b)"
      using emps len a by (auto simp: nth_list_update)
    moreover have "\<forall>b < length h. b \<notin> set_tree (Node l a r) \<longrightarrow> ?h' ! b = h ! b"
      using frame len a by (auto simp: nth_list_update)
    moreover have "emp (?h' ! length h) = e" using new a by simp
    ultimately show ?thesis using res len by simp
  next
    case False
    from Node.IH(2)[OF tr dr] obtain h1 r' where
      call: "insert_node h (right (h ! a)) e = Some (h1, r')" and
      len: "length h1 = Suc (length h)" and
      new: "emp (h1 ! length h) = e" and
      emps: "\<forall>b < length h. emp (h1 ! b) = emp (h ! b)" and
      frame: "\<forall>b < length h. b \<notin> set_tree r \<longrightarrow> h1 ! b = h ! b" and
      sub: "tree_at h1 (Some r') (ins ?kf (key e) (length h) r)"
      by blast
    let ?h' = "h1[a := (h1 ! a)\<lparr>right := Some r'\<rparr>]"
    have res: "insert_node h p e = Some (?h', a)"
      using False p call by (subst insert_node.simps) simp
    have ha: "h1 ! a = h ! a" using frame a ar by simp
    have 1: "tree_at ?h' (Some r') (ins ?kf (key e) (length h) r)"
      using a ar len by (intro tree_at_cong[OF sub]) (auto simp: set_tree_ins nth_list_update)
    have 2: "tree_at ?h' (left (h ! a)) l"
    proof (rule tree_at_cong[OF tl])
      show "length h \<le> length ?h'" using len by simp
      show "\<forall>b\<in>set_tree l. ?h' ! b = h ! b"
      proof
        fix b assume "b \<in> set_tree l"
        then have "b \<noteq> a" "b \<notin> set_tree r" "b < length h"
          using al disj tree_at_bound[OF tl] by auto
        then show "?h' ! b = h ! b" using frame by simp
      qed
    qed
    have "tree_at ?h' (Some a) (ins ?kf (key e) (length h) (Node l a r))"
      using False a len 1 2 ha by simp
    moreover have "\<forall>b < length h. emp (?h' ! b) = emp (h ! b)"
      using emps len a by (auto simp: nth_list_update)
    moreover have "\<forall>b < length h. b \<notin> set_tree (Node l a r) \<longrightarrow> ?h' ! b = h ! b"
      using frame len a by (auto simp: nth_list_update)
    moreover have "emp (?h' ! length h) = e" using new a by simp
    ultimately show ?thesis using res len by simp
  qed
qed

lemma map_tree_agree: "\<forall>a \<in> set_tree t. f a = g a \<Longrightarrow> map_tree f t = map_tree g t"
  by (induction t) auto

lemma bst_keys_ins:
  "bst (map_tree kf t) \<Longrightarrow> \<forall>a \<in> set_tree t. kf' a = kf a \<Longrightarrow> kf' n = k \<Longrightarrow>
   k \<notin> kf ` set_tree t \<Longrightarrow> bst (map_tree kf' (ins kf k n t))"
proof (induction t)
  case Leaf
  then show ?case by simp
next
  case (Node l a r)
  have "map_tree kf' l = map_tree kf l" "map_tree kf' r = map_tree kf r"
    using Node.prems(2) by (auto intro: map_tree_agree)
  with Node show ?case
    by (auto simp: set_tree_ins tree.set_map)
qed

lemma distinct_inorder_ins:
  "distinct (inorder t) \<Longrightarrow> n \<notin> set_tree t \<Longrightarrow> distinct (inorder (ins kf k n t))"
  by (induction t) (auto simp: set_tree_ins)

lemma size_ins: "size (ins kf k n t) = Suc (size t)"
  by (induction t) auto

lemma mset_inorder_ins: "mset (inorder (ins kf k n t)) = add_mset n (mset (inorder t))"
  by (induction t) auto

lemma follow_walk: "tree_at h p t \<Longrightarrow> follow h p ds = walk t ds"
proof (induction ds arbitrary: p t)
  case Nil
  then show ?case by (cases t) auto
next
  case (Cons d ds)
  then show ?case by (cases t; cases d) auto
qed

lemma walk_in_set: "walk t ds = Some a \<Longrightarrow> a \<in> set_tree t"
proof (induction t ds rule: walk.induct)
  case (3 l a r d ds)
  then show ?case by (cases d) auto
qed auto

lemma in_set_walk: "a \<in> set_tree t \<Longrightarrow> \<exists>ds. walk t ds = Some a"
proof (induction t)
  case Leaf
  then show ?case by simp
next
  case (Node l b r)
  consider "a = b" | "a \<in> set_tree l" | "a \<in> set_tree r" using Node.prems by auto
  then show ?case
  proof cases
    case 1
    then have "walk (Node l b r) [] = Some a" by simp
    then show ?thesis by blast
  next
    case 2
    then obtain ds where "walk l ds = Some a" using Node.IH(1) by blast
    then have "walk (Node l b r) (ToLeft # ds) = Some a" by simp
    then show ?thesis by blast
  next
    case 3
    then obtain ds where "walk r ds = Some a" using Node.IH(2) by blast
    then have "walk (Node l b r) (ToRight # ds) = Some a" by simp
    then show ?thesis by blast
  qed
qed

lemma walk_unique:
  "distinct (inorder t) \<Longrightarrow> walk t ps = Some a \<Longrightarrow> walk t qs = Some a \<Longrightarrow> ps = qs"
proof (induction t arbitrary: ps qs)
  case Leaf
  then show ?case by simp
next
  case (Node l b r)
  from Node.prems(1) have dl: "distinct (inorder l)" and dr: "distinct (inorder r)"
    and bl: "b \<notin> set_tree l" and br: "b \<notin> set_tree r" and disj: "set_tree l \<inter> set_tree r = {}"
    by auto
  have side: "\<And>d ds. walk (Node l b r) (d # ds) = Some a \<Longrightarrow>
      (d = ToLeft \<and> walk l ds = Some a \<and> a \<in> set_tree l) \<or>
      (d = ToRight \<and> walk r ds = Some a \<and> a \<in> set_tree r)"
    subgoal for d ds by (cases d) (auto dest: walk_in_set)
    done
  show ?case
  proof (cases ps)
    case Nil
    then have ab: "a = b" using Node.prems(2) by simp
    show ?thesis
    proof (cases qs)
      case Nil
      with \<open>ps = []\<close> show ?thesis by simp
    next
      case (Cons d ds)
      with side[of d ds] Node.prems(3) ab bl br show ?thesis by auto
    qed
  next
    case (Cons d ds)
    note ps = this
    show ?thesis
    proof (cases qs)
      case Nil
      then have "a = b" using Node.prems(3) by simp
      with side[of d ds] Node.prems(2) ps bl br show ?thesis by auto
    next
      case (Cons d' ds')
      from side[of d ds] side[of d' ds'] Node.prems(2,3) ps Cons disj
        Node.IH(1)[OF dl, of ds ds'] Node.IH(2)[OF dr, of ds ds']
      show ?thesis by auto
    qed
  qed
qed

lemma reachable_tree: "tree_at h p t \<Longrightarrow> reachable h p = set_tree t"
  unfolding reachable_def
  by (auto simp: follow_walk dest: walk_in_set in_set_walk)

lemma card_set_tree: "distinct (inorder t) \<Longrightarrow> card (set_tree t) = size t"
  by (metis distinct_card length_inorder set_inorder)

lemma collect_nodes_inorder_tree:
  "tree_at h p t \<Longrightarrow> collect_nodes_inorder h p out = Some (out @ inorder t)"
proof (induction t arbitrary: p out)
  case Leaf
  then show ?case by (simp add: collect_nodes_inorder.simps)
next
  case (Node l a r)
  then show ?case
    by (subst collect_nodes_inorder.simps) simp
qed

subsection \<open>The insertion loop\<close>

lemma insert_node_step:
  assumes t: "is_tree h p t" and b: "bst (keys h t)" and fresh: "key e \<notin> set_tree (keys h t)"
  shows "\<exists>h' a' t'. insert_node h p e = Some (h', a') \<and> is_tree h' (Some a') t' \<and>
      bst (keys h' t') \<and> length h' = Suc (length h) \<and>
      set_tree t' = insert (length h) (set_tree t) \<and>
      mset (inorder (payloads h' t')) = add_mset e (mset (inorder (payloads h t))) \<and>
      (\<forall>b < length h. b \<notin> set_tree t \<longrightarrow> h' ! b = h ! b)"
proof -
  let ?kf = "\<lambda>a. key (emp (h ! a))"
  let ?t' = "ins ?kf (key e) (length h) t"
  from t have ta: "tree_at h p t" and d: "distinct (inorder t)" by (auto simp: is_tree_def)
  from insert_node_refines[OF ta d, of e] obtain h' a' where
    call: "insert_node h p e = Some (h', a')" and
    len: "length h' = Suc (length h)" and
    new: "emp (h' ! length h) = e" and
    emps: "\<forall>b < length h. emp (h' ! b) = emp (h ! b)" and
    frame: "\<forall>b < length h. b \<notin> set_tree t \<longrightarrow> h' ! b = h ! b" and
    ta': "tree_at h' (Some a') ?t'"
    by blast
  have bound: "\<forall>a \<in> set_tree t. a < length h" using tree_at_bound[OF ta] by blast
  then have nfresh: "length h \<notin> set_tree t" by auto
  have d': "distinct (inorder ?t')" using d nfresh by (rule distinct_inorder_ins)
  have agree: "\<forall>a \<in> set_tree t. key (emp (h' ! a)) = ?kf a" using bound emps by auto
  have "bst (map_tree (\<lambda>a. key (emp (h' ! a))) ?t')"
    using b fresh agree new by (intro bst_keys_ins) (auto simp: keys_def tree.set_map)
  then have b': "bst (keys h' ?t')" by (simp add: keys_def)
  have "mset (inorder (payloads h' ?t')) = image_mset (\<lambda>a. emp (h' ! a)) (mset (inorder ?t'))"
    by (simp add: payloads_def inorder_map)
  also have "\<dots> = add_mset e (image_mset (\<lambda>a. emp (h' ! a)) (mset (inorder t)))"
    using new by (simp add: mset_inorder_ins)
  also have "image_mset (\<lambda>a. emp (h' ! a)) (mset (inorder t)) = image_mset (\<lambda>a. emp (h ! a)) (mset (inorder t))"
    using bound emps by (intro image_mset_cong) auto
  finally have m: "mset (inorder (payloads h' ?t')) = add_mset e (mset (inorder (payloads h t)))"
    by (simp add: payloads_def inorder_map)
  show ?thesis
    using call ta' d' b' len m frame by (auto simp: is_tree_def set_tree_ins)
qed

lemma set_tree_keys: "set_tree (keys h t) = key ` set (inorder (payloads h t))"
  by (simp add: keys_def payloads_def tree.set_map image_image)

lemma insert_all_builds:
  assumes "is_tree h p t" and "bst (keys h t)" and "distinct (map key es)"
    and "\<forall>e \<in> set es. key e \<notin> set_tree (keys h t)"
  shows "\<exists>h' p' t'. insert_all h p es = Some (h', p') \<and> is_tree h' p' t' \<and>
      bst (keys h' t') \<and> length h' = length h + length es \<and>
      mset (inorder (payloads h' t')) = mset (inorder (payloads h t)) + mset es \<and>
      (\<forall>b < length h. b \<notin> set_tree t \<longrightarrow> h' ! b = h ! b)"
  using assms
proof (induction es arbitrary: h p t)
  case Nil
  then show ?case by (intro exI[of _ h] exI[of _ p] exI[of _ t]) simp
next
  case (Cons e es)
  from Cons.prems have fresh: "key e \<notin> set_tree (keys h t)" by simp
  from insert_node_step[OF Cons.prems(1,2) fresh] obtain h1 a1 t1 where
    call: "insert_node h p e = Some (h1, a1)" and t1: "is_tree h1 (Some a1) t1" and
    b1: "bst (keys h1 t1)" and len1: "length h1 = Suc (length h)" and
    set1: "set_tree t1 = insert (length h) (set_tree t)" and
    m1: "mset (inorder (payloads h1 t1)) = add_mset e (mset (inorder (payloads h t)))" and
    frame1: "\<forall>b < length h. b \<notin> set_tree t \<longrightarrow> h1 ! b = h ! b"
    by (elim exE conjE) (rule that)
  have d: "distinct (map key es)" using Cons.prems(3) by simp
  have "set (inorder (payloads h1 t1)) = insert e (set (inorder (payloads h t)))"
    using arg_cong[OF m1, of set_mset] by simp
  then have "set_tree (keys h1 t1) = insert (key e) (set_tree (keys h t))"
    by (simp only: set_tree_keys image_insert)
  moreover have "key e \<notin> set (map key es)" using Cons.prems(3) by simp
  then have "\<forall>x \<in> set es. key x \<noteq> key e"
    by (metis image_eqI set_map)
  ultimately have fr: "\<forall>x \<in> set es. key x \<notin> set_tree (keys h1 t1)"
    using Cons.prems(4) by simp
  from Cons.IH[OF t1 b1 d fr] obtain h' p' t' where
    rest: "insert_all h1 (Some a1) es = Some (h', p')" and t': "is_tree h' p' t'" and
    b': "bst (keys h' t')" and len': "length h' = length h1 + length es" and
    m': "mset (inorder (payloads h' t')) = mset (inorder (payloads h1 t1)) + mset es" and
    frame': "\<forall>b < length h1. b \<notin> set_tree t1 \<longrightarrow> h' ! b = h1 ! b"
    by (elim exE conjE) (rule that)
  have 1: "insert_all h p (e # es) = Some (h', p')" using call rest by simp
  have 2: "length h' = length h + length (e # es)" using len' len1 by simp
  have 4: "mset (inorder (payloads h' t')) = mset (inorder (payloads h t)) + mset (e # es)"
    using m' m1 by simp
  have 5: "\<forall>b < length h. b \<notin> set_tree t \<longrightarrow> h' ! b = h ! b"
  proof (intro allI impI)
    fix b assume "b < length h" "b \<notin> set_tree t"
    then have "b < length h1" "b \<notin> set_tree t1" "h1 ! b = h ! b"
      using len1 set1 frame1 by auto
    then show "h' ! b = h ! b" using frame' by simp
  qed
  show ?case
    by (rule exI[of _ h'], rule exI[of _ p'], rule exI[of _ t']) (intro conjI 1 2 4 5 t' b')
qed

lemma shuffled_mset:
  "mset perm = mset [0..<length es] \<Longrightarrow> mset (map (\<lambda>i. es ! i) perm) = mset es"
proof -
  assume "mset perm = mset [0..<length es]"
  then have "mset (map (\<lambda>i. es ! i) perm) = mset (map (\<lambda>i. es ! i) [0..<length es])"
    by (metis mset_map)
  then show ?thesis by (simp add: map_nth)
qed

lemma build_correct:
  assumes "rng_ok R" and "distinct (map key employees)"
  shows "\<exists>h' root t s'. build_valid_bst_from_list R h employees s = Some ((h', root), s') \<and>
      is_tree h' root t \<and> bst (keys h' t) \<and> size t = length employees \<and>
      mset (inorder (payloads h' t)) = mset employees \<and>
      (\<forall>b < length h. h' ! b = h ! b)"
proof -
  obtain perm s' where sh: "shuffle R (length employees) s = (perm, s')" by (cases "shuffle R (length employees) s")
  let ?es = "map (\<lambda>i. employees ! i) perm"
  have "mset perm = mset [0..<length employees]"
    using assms(1) sh unfolding rng_ok_def by (metis fst_conv)
  then have ms: "mset ?es = mset employees" by (rule shuffled_mset)
  have "mset (map key ?es) = mset (map key employees)" using ms by (metis mset_map)
  then have d: "distinct (map key ?es)" using assms(2) by (metis mset_eq_imp_distinct_iff)
  have "is_tree h None Leaf" "bst (keys h Leaf)" by (simp_all add: is_tree_def keys_def)
  have fr: "\<forall>e \<in> set ?es. key e \<notin> set_tree (keys h Leaf)" by (simp add: keys_def)
  from insert_all_builds[OF \<open>is_tree h None Leaf\<close> \<open>bst (keys h Leaf)\<close> d fr] obtain h' p' t' where
    call: "insert_all h None ?es = Some (h', p')" and t': "is_tree h' p' t'" and b': "bst (keys h' t')"
    and m0: "mset (inorder (payloads h' t')) = mset (inorder (payloads h Leaf)) + mset ?es"
    and frame0: "\<forall>b < length h. b \<notin> set_tree Leaf \<longrightarrow> h' ! b = h ! b"
    by blast
  have m: "mset (inorder (payloads h' t')) = mset employees"
    using m0 ms by (simp add: payloads_def)
  have "length (inorder (payloads h' t')) = length employees"
    using m by (rule mset_eq_length)
  then have sz: "size t' = length employees" by (simp add: payloads_def)
  have frame: "\<forall>b < length h. h' ! b = h ! b" using frame0 by simp
  have "build_valid_bst_from_list R h employees s = Some ((h', p'), s')"
    using sh call by (simp add: build_valid_bst_from_list_def)
  then show ?thesis
    by (intro exI[of _ h'] exI[of _ p'] exI[of _ t'] exI[of _ s'] conjI t' b' sz m frame)
qed

subsection \<open>The replaying generator\<close>

lemma mset_rotate1: "mset (rotate1 xs) = mset xs"
  by (cases xs) simp_all

lemma mset_rotate: "mset (rotate n xs) = mset xs"
  by (induction n) (simp_all add: mset_rotate1)

lemma tape_rng_ok: "rng_ok tape_rng"
proof -
  have 1: "\<And>a b s. a \<le> b \<Longrightarrow> a \<le> fst (randint tape_rng a b s) \<and> fst (randint tape_rng a b s) \<le> b"
  proof -
    fix a b :: int and s :: "nat list"
    assume ab: "a \<le> b"
    show "a \<le> fst (randint tape_rng a b s) \<and> fst (randint tape_rng a b s) \<le> b"
    proof (cases s)
      case Nil
      then show ?thesis using ab by (simp add: tape_rng_def)
    next
      case (Cons x xs)
      have "x mod nat (b - a + 1) < nat (b - a + 1)" using ab by (intro mod_less_divisor) simp
      then have "int (x mod nat (b - a + 1)) \<le> b - a" using ab by linarith
      then show ?thesis using Cons by (simp add: tape_rng_def)
    qed
  qed
  have 2: "\<And>n s. 0 < n \<Longrightarrow> fst (choice tape_rng n s) < n"
    by (simp add: tape_rng_def split: list.split)
  have 3: "\<And>n s. mset (fst (shuffle tape_rng n s)) = mset [0..<n]"
    subgoal for n s by (cases s) (simp_all add: tape_rng_def mset_rotate del: mset_upt)
    done
  have 4: "\<And>n s. 2 \<le> n \<Longrightarrow> fst (fst (sample2 tape_rng n s)) < n \<and> snd (fst (sample2 tape_rng n s)) < n \<and>
        fst (fst (sample2 tape_rng n s)) \<noteq> snd (fst (sample2 tape_rng n s))"
  proof -
    fix n :: nat and s :: "nat list"
    assume n: "2 \<le> n"
    show "fst (fst (sample2 tape_rng n s)) < n \<and> snd (fst (sample2 tape_rng n s)) < n \<and>
        fst (fst (sample2 tape_rng n s)) \<noteq> snd (fst (sample2 tape_rng n s))"
    proof (cases s)
      case Nil
      then show ?thesis using n by (simp add: tape_rng_def)
    next
      case (Cons x xs)
      have "x mod n < n" using n by simp
      moreover have "Suc (x mod n) mod n \<noteq> x mod n"
        using n by (auto simp: mod_Suc)
      ultimately show ?thesis using Cons n by (simp add: tape_rng_def)
    qed
  qed
  show ?thesis unfolding rng_ok_def using 1 2 3 4 by blast
qed

subsection \<open>Claims about the builder\<close>

text \<open>
  C1. For records with pairwise distinct keys and any order the shuffle produces, the
  builder returns, and the tree it returns holds exactly the given records and satisfies
  the strict BST invariant on the key (department, id_in_department): the in-order
  traversal (as \<^const>\<open>collect_nodes_inorder\<close> computes it) has strictly increasing
  keys, and at every node the keys of the left subtree are smaller and those of the right
  subtree greater than the node's key.
\<close>

theorem builder_yields_bst:
  assumes "rng_ok R" and "distinct (map key employees)"
  shows "\<exists>h' root t s'. build_valid_bst_from_list R h employees s = Some ((h', root), s') \<and>
      is_tree h' root t \<and>
      mset (inorder (payloads h' t)) = mset employees \<and>
      collect_nodes_inorder h' root [] = Some (inorder t) \<and>
      sorted_wrt (<) (map (\<lambda>a. key (emp (h' ! a))) (inorder t)) \<and>
      bst (keys h' t)"
proof -
  from build_correct[OF assms, of h s] obtain h' root t s' where
    call: "build_valid_bst_from_list R h employees s = Some ((h', root), s')" and
    t: "is_tree h' root t" and b: "bst (keys h' t)" and
    m: "mset (inorder (payloads h' t)) = mset employees"
    by (elim exE conjE) (rule that)
  have c: "collect_nodes_inorder h' root [] = Some (inorder t)"
    using collect_nodes_inorder_tree[of h' root t "[]"] t by (simp add: is_tree_def)
  have "sorted_wrt (<) (inorder (keys h' t))" using b by (simp only: bst_iff_sorted_wrt_less)
  then have srt: "sorted_wrt (<) (map (\<lambda>a. key (emp (h' ! a))) (inorder t))"
    by (simp add: keys_def inorder_map)
  show ?thesis
    by (intro exI[of _ h'] exI[of _ root] exI[of _ t] exI[of _ s'] conjI call t m c srt b)
qed

theorem builder_yields_bst_witness:
  "rng_ok tape_rng \<and> distinct (map key emp3) \<and>
   (\<exists>h' root t s'. build_valid_bst_from_list tape_rng [] emp3 [1] = Some ((h', root), s') \<and>
      is_tree h' root t \<and>
      mset (inorder (payloads h' t)) = mset emp3 \<and>
      collect_nodes_inorder h' root [] = Some (inorder t) \<and>
      sorted_wrt (<) (map (\<lambda>a. key (emp (h' ! a))) (inorder t)) \<and>
      bst (keys h' t))"
proof -
  have d: "distinct (map key emp3)" by (simp add: emp3_def key_def)
  show ?thesis by (intro conjI tape_rng_ok d builder_yields_bst[OF tape_rng_ok d])
qed

text \<open>
  C4. For N records with pairwise distinct keys and any order the shuffle produces, the
  tree returned by the builder has exactly N nodes (references reachable from the root),
  and no node is reached from the root by two different paths: no sharing, no cycle.
\<close>

theorem builder_yields_tree:
  assumes "rng_ok R" and "distinct (map key employees)"
  shows "\<exists>h' root s'. build_valid_bst_from_list R h employees s = Some ((h', root), s') \<and>
      finite (reachable h' root) \<and>
      card (reachable h' root) = length employees \<and>
      (\<forall>ps qs a. follow h' root ps = Some a \<and> follow h' root qs = Some a \<longrightarrow> ps = qs)"
proof -
  from build_correct[OF assms, of h s] obtain h' root t s' where
    call: "build_valid_bst_from_list R h employees s = Some ((h', root), s')" and
    t: "is_tree h' root t" and sz: "size t = length employees"
    by (elim exE conjE) (rule that)
  from t have ta: "tree_at h' root t" and d: "distinct (inorder t)" by (simp_all add: is_tree_def)
  have r: "reachable h' root = set_tree t" using ta by (rule reachable_tree)
  have f: "finite (reachable h' root)" by (simp add: r)
  have c: "card (reachable h' root) = length employees"
    using card_set_tree[OF d] sz r by simp
  have u: "\<forall>ps qs a. follow h' root ps = Some a \<and> follow h' root qs = Some a \<longrightarrow> ps = qs"
    using walk_unique[OF d] by (simp add: follow_walk[OF ta])
  show ?thesis
    by (intro exI[of _ h'] exI[of _ root] exI[of _ s'] conjI call f c u)
qed

theorem builder_yields_tree_witness:
  "rng_ok tape_rng \<and> distinct (map key emp3) \<and>
   (\<exists>h' root s'. build_valid_bst_from_list tape_rng [] emp3 [1] = Some ((h', root), s') \<and>
      finite (reachable h' root) \<and>
      card (reachable h' root) = length emp3 \<and>
      (\<forall>ps qs a. follow h' root ps = Some a \<and> follow h' root qs = Some a \<longrightarrow> ps = qs))"
proof -
  have d: "distinct (map key emp3)" by (simp add: emp3_def key_def)
  show ?thesis by (intro conjI tape_rng_ok d builder_yields_tree[OF tape_rng_ok d])
qed

section \<open>The corruptor\<close>

lemma tree_at_same_edges:
  "tree_at h p t \<Longrightarrow> length h' = length h \<Longrightarrow>
   (\<forall>c < length h. left (h' ! c) = left (h ! c) \<and> right (h' ! c) = right (h ! c)) \<Longrightarrow>
   tree_at h' p t"
  by (induction t arbitrary: p) auto

lemma swapped_not_increasing:
  fixes xs :: "('a::linorder) list"
  assumes "sorted_wrt (<) xs" and "i < length xs" and "j < length xs" and "i \<noteq> j"
  shows "\<not> sorted_wrt (<) (xs[j := xs ! i, i := xs ! j])"
proof
  let ?ys = "xs[j := xs ! i, i := xs ! j]"
  assume s: "sorted_wrt (<) ?ys"
  have yi: "?ys ! i = xs ! j" and yj: "?ys ! j = xs ! i" using assms(2,3,4) by simp_all
  have ys: "\<And>a b. a < b \<Longrightarrow> b < length xs \<Longrightarrow> ?ys ! a < ?ys ! b"
    using s by (simp add: sorted_wrt_iff_nth_less)
  have xs: "\<And>a b. a < b \<Longrightarrow> b < length xs \<Longrightarrow> xs ! a < xs ! b"
    using assms(1) by (simp add: sorted_wrt_iff_nth_less)
  show False
  proof (cases "i < j")
    case True
    then have "xs ! i < xs ! j" "?ys ! i < ?ys ! j"
      using xs[of i j] ys[of i j] assms(3) by blast+
    then show False using yi yj by simp
  next
    case False
    then have ji: "j < i" using assms(4) by simp
    then have "xs ! j < xs ! i" "?ys ! j < ?ys ! i"
      using xs[of j i] ys[of j i] assms(2) by blast+
    then show False using yi yj by simp
  qed
qed

lemma violate_bst_swaps:
  assumes t: "is_tree h root t" and sz: "2 \<le> size t" and R: "rng_ok R"
    and smp: "sample2 R (size t) s = ((i, j), s')"
  shows "\<exists>h'. violate_bst R h root s = Some (h', root, s') \<and>
      length h' = length h \<and>
      (\<forall>c < length h. left (h' ! c) = left (h ! c) \<and> right (h' ! c) = right (h ! c)) \<and>
      i < size t \<and> j < size t \<and> i \<noteq> j \<and>
      map (\<lambda>c. emp (h' ! c)) (inorder t) =
        (map (\<lambda>c. emp (h ! c)) (inorder t))
          [j := emp (h ! (inorder t ! i)), i := emp (h ! (inorder t ! j))]"
proof -
  let ?nodes = "inorder t"
  from t have ta: "tree_at h root t" and d: "distinct ?nodes" by (simp_all add: is_tree_def)
  have col: "collect_nodes_inorder h root [] = Some ?nodes"
    using collect_nodes_inorder_tree[OF ta, of "[]"] by simp
  have ij: "i < size t" "j < size t" "i \<noteq> j"
    using R sz smp unfolding rng_ok_def by (metis fst_conv snd_conv)+
  let ?a = "?nodes ! i" and ?b = "?nodes ! j"
  have ab: "?a \<noteq> ?b" using d ij by (simp add: nth_eq_iff_index_eq)
  have bound: "?a < length h" "?b < length h"
    using tree_at_bound[OF ta] ij by (metis length_inorder nth_mem set_inorder)+
  let ?h1 = "h[?a := (h ! ?a)\<lparr>emp := emp (h ! ?b)\<rparr>]"
  let ?h2 = "?h1[?b := (?h1 ! ?b)\<lparr>emp := emp (h ! ?a)\<rparr>]"
  have res: "violate_bst R h root s = Some (?h2, root, s')"
    using col sz smp by (simp add: violate_bst_def Let_def)
  have len: "length ?h2 = length h" by simp
  have edges: "\<forall>c < length h. left (?h2 ! c) = left (h ! c) \<and> right (?h2 ! c) = right (h ! c)"
    using bound by (auto simp: nth_list_update)
  have emps: "\<And>c. c < length h \<Longrightarrow>
      emp (?h2 ! c) = (if c = ?b then emp (h ! ?a) else if c = ?a then emp (h ! ?b) else emp (h ! c))"
    using bound by (auto simp: nth_list_update)
  have "map (\<lambda>c. emp (?h2 ! c)) ?nodes =
      (map (\<lambda>c. emp (h ! c)) ?nodes)[j := emp (h ! ?a), i := emp (h ! ?b)]"
  proof (rule nth_equalityI)
    show "length (map (\<lambda>c. emp (?h2 ! c)) ?nodes) =
        length ((map (\<lambda>c. emp (h ! c)) ?nodes)[j := emp (h ! ?a), i := emp (h ! ?b)])"
      by simp
  next
    fix k assume "k < length (map (\<lambda>c. emp (?h2 ! c)) ?nodes)"
    then have k: "k < size t" by simp
    then have kb: "?nodes ! k < length h"
      using tree_at_bound[OF ta] by (metis length_inorder nth_mem set_inorder)
    have ki: "?nodes ! k = ?a \<longleftrightarrow> k = i" and kj: "?nodes ! k = ?b \<longleftrightarrow> k = j"
      using d k ij by (simp_all add: nth_eq_iff_index_eq)
    show "map (\<lambda>c. emp (?h2 ! c)) ?nodes ! k =
        (map (\<lambda>c. emp (h ! c)) ?nodes)[j := emp (h ! ?a), i := emp (h ! ?b)] ! k"
      using k ij emps[OF kb] ki kj by (simp add: nth_list_update)
  qed
  then show ?thesis
    using res len edges ij by (intro exI[of _ ?h2]) simp
qed

lemma is_tree_two_nodes: "is_tree (two_nodes a b) (Some 0) two_shape"
  by (simp add: is_tree_def two_nodes_def two_shape_def)

lemma keys_two_nodes: "inorder (keys (two_nodes a b) two_shape) = [key b, key a]"
  by (simp add: keys_def two_nodes_def two_shape_def)

lemma key_hr_record: "key (hr_record nm i title sal) = (''HR'', i)"
  by (simp add: key_def hr_record_def)

lemma violate_bst_breaks_order:
  assumes "is_tree h root t" and "2 \<le> size t" and "rng_ok R"
    and "sorted_wrt (<) (inorder (keys h t))"
  shows "\<exists>h' s'. violate_bst R h root s = Some (h', root, s') \<and>
      collect_nodes_inorder h' root [] = Some (inorder t) \<and>
      \<not> sorted_wrt (<) (inorder (keys h' t)) \<and>
      mset (inorder (keys h' t)) = mset (inorder (keys h t)) \<and>
      mset (inorder (payloads h' t)) = mset (inorder (payloads h t)) \<and>
      is_tree h' root t \<and> length h' = length h \<and>
      (\<forall>c < length h. left (h' ! c) = left (h ! c) \<and> right (h' ! c) = right (h ! c))"
proof -
  obtain i j s' where smp: "sample2 R (size t) s = ((i, j), s')"
    by (metis surj_pair)
  let ?pl = "map (\<lambda>c. emp (h ! c)) (inorder t)"
  from violate_bst_swaps[OF assms(1,2,3) smp] obtain h' where
    call: "violate_bst R h root s = Some (h', root, s')" and
    len: "length h' = length h" and
    edges: "\<forall>c < length h. left (h' ! c) = left (h ! c) \<and> right (h' ! c) = right (h ! c)" and
    i: "i < size t" and j: "j < size t" and ij: "i \<noteq> j" and
    pl0: "map (\<lambda>c. emp (h' ! c)) (inorder t) =
        ?pl[j := emp (h ! (inorder t ! i)), i := emp (h ! (inorder t ! j))]"
    by (elim exE conjE) (rule that)
  have pl': "map (\<lambda>c. emp (h' ! c)) (inorder t) = ?pl[j := ?pl ! i, i := ?pl ! j]"
    using pl0 i j by simp
  from assms(1) have ta: "tree_at h root t" and d: "distinct (inorder t)"
    by (simp_all add: is_tree_def)
  have ta': "tree_at h' root t" using ta len edges by (rule tree_at_same_edges)
  then have t': "is_tree h' root t" using d by (simp add: is_tree_def)
  have col: "collect_nodes_inorder h' root [] = Some (inorder t)"
    using collect_nodes_inorder_tree[OF ta', of "[]"] by simp
  have "mset (map (\<lambda>c. emp (h' ! c)) (inorder t)) = mset ?pl"
    unfolding pl' using i j by (intro mset_swap) simp_all
  then have mp: "mset (inorder (payloads h' t)) = mset (inorder (payloads h t))"
    by (simp only: payloads_def inorder_map)
  let ?kl = "map key ?pl"
  have kl: "inorder (keys h t) = ?kl" by (simp add: keys_def inorder_map)
  have "inorder (keys h' t) = map key (map (\<lambda>c. emp (h' ! c)) (inorder t))"
    by (simp add: keys_def inorder_map)
  also have "\<dots> = ?kl[j := ?kl ! i, i := ?kl ! j]"
    using i j by (simp only: pl' map_update) simp
  finally have kl': "inorder (keys h' t) = ?kl[j := ?kl ! i, i := ?kl ! j]" .
  have mk: "mset (inorder (keys h' t)) = mset (inorder (keys h t))"
    unfolding kl kl' using i j by (intro mset_swap) simp_all
  have "sorted_wrt (<) ?kl" using assms(4) by (simp only: kl)
  then have ns: "\<not> sorted_wrt (<) (inorder (keys h' t))"
    unfolding kl' using i j ij by (intro swapped_not_increasing) simp_all
  show ?thesis
    by (intro exI[of _ h'] exI[of _ s'] conjI call col ns mk mp t' len edges)
qed

text \<open>
  The corruptor is called on the tree the builder returns, which is a valid BST: for at
  least 2 records with pairwise distinct keys, building and then corrupting always ends
  in a tree whose in-order keys are not strictly increasing.
\<close>

lemma built_tree_gets_corrupted:
  assumes "rng_ok R" and "distinct (map key employees)" and "2 \<le> length employees"
  shows "\<exists>h root t s1 h' s2.
      build_valid_bst_from_list R h0 employees s = Some ((h, root), s1) \<and>
      is_tree h root t \<and> size t = length employees \<and>
      sorted_wrt (<) (inorder (keys h t)) \<and>
      violate_bst R h root s1 = Some (h', root, s2) \<and>
      \<not> sorted_wrt (<) (inorder (keys h' t)) \<and>
      mset (inorder (keys h' t)) = mset (inorder (keys h t)) \<and>
      is_tree h' root t"
proof -
  from build_correct[OF assms(1,2), of h0 s] obtain h root t s1 where
    b: "build_valid_bst_from_list R h0 employees s = Some ((h, root), s1)" and
    t: "is_tree h root t" and bs: "bst (keys h t)" and sz: "size t = length employees"
    by (elim exE conjE) (rule that)
  have srt: "sorted_wrt (<) (inorder (keys h t))" using bs by (simp only: bst_iff_sorted_wrt_less)
  have two: "2 \<le> size t" using sz assms(3) by simp
  from violate_bst_breaks_order[OF t two assms(1) srt, of s1] obtain h' s2 where
    v: "violate_bst R h root s1 = Some (h', root, s2)" and
    ns: "\<not> sorted_wrt (<) (inorder (keys h' t))" and
    mk: "mset (inorder (keys h' t)) = mset (inorder (keys h t))" and
    t': "is_tree h' root t"
    by (elim exE conjE) (rule that)
  show ?thesis
    by (rule exI[of _ h], rule exI[of _ root], rule exI[of _ t], rule exI[of _ s1],
        rule exI[of _ h'], rule exI[of _ s2]) (intro conjI b t sz srt v ns mk t')
qed

text \<open>
  C2. For every tree passed to the corruptor, that is a valid BST (in-order keys strictly
  increasing, hence pairwise distinct), with at least 2 nodes: the corruptor returns;
  afterwards the in-order traversal visits the same nodes but its keys are not strictly
  increasing, the multiset of keys (and of payloads) is unchanged, and so are the nodes
  and the child references of every node: the store unfolds into the same tree of
  references.
\<close>

theorem corruptor_breaks_valid_bst:
  assumes "is_tree h root t" and "2 \<le> size t" and "rng_ok R"
    and "sorted_wrt (<) (inorder (keys h t))"
  shows "\<exists>h' s'. violate_bst R h root s = Some (h', root, s') \<and>
      collect_nodes_inorder h' root [] = Some (inorder t) \<and>
      \<not> sorted_wrt (<) (inorder (keys h' t)) \<and>
      mset (inorder (keys h' t)) = mset (inorder (keys h t)) \<and>
      mset (inorder (payloads h' t)) = mset (inorder (payloads h t)) \<and>
      is_tree h' root t \<and> length h' = length h \<and>
      (\<forall>c < length h. left (h' ! c) = left (h ! c) \<and> right (h' ! c) = right (h ! c))"
  using assms by (rule violate_bst_breaks_order)

theorem corruptor_breaks_valid_bst_witness:
  "is_tree (two_nodes hr2 hr1) (Some 0) two_shape \<and> 2 \<le> size two_shape \<and> rng_ok tape_rng \<and>
   sorted_wrt (<) (inorder (keys (two_nodes hr2 hr1) two_shape)) \<and>
   (\<exists>h' s'. violate_bst tape_rng (two_nodes hr2 hr1) (Some 0) [5] = Some (h', Some 0, s') \<and>
      collect_nodes_inorder h' (Some 0) [] = Some (inorder two_shape) \<and>
      \<not> sorted_wrt (<) (inorder (keys h' two_shape)) \<and>
      mset (inorder (keys h' two_shape)) = mset (inorder (keys (two_nodes hr2 hr1) two_shape)) \<and>
      mset (inorder (payloads h' two_shape)) = mset (inorder (payloads (two_nodes hr2 hr1) two_shape)) \<and>
      is_tree h' (Some 0) two_shape \<and> length h' = length (two_nodes hr2 hr1) \<and>
      (\<forall>c < length (two_nodes hr2 hr1).
         left (h' ! c) = left (two_nodes hr2 hr1 ! c) \<and> right (h' ! c) = right (two_nodes hr2 hr1 ! c)))"
proof -
  have sz: "2 \<le> size two_shape" by (simp add: two_shape_def)
  have srt: "sorted_wrt (<) (inorder (keys (two_nodes hr2 hr1) two_shape))"
    by (simp add: keys_two_nodes hr1_def hr2_def key_hr_record)
  show ?thesis
    by (intro conjI is_tree_two_nodes sz tape_rng_ok srt
        corruptor_breaks_valid_bst[OF is_tree_two_nodes sz tape_rng_ok srt])
qed

text \<open>
  C6. On a tree with 0 or 1 nodes the corruptor returns the store, the root and the
  generator state it was given: nothing is swapped and nothing is drawn.
\<close>

theorem corruptor_identity_on_small_trees:
  assumes "is_tree h root t" and "size t \<le> 1"
  shows "violate_bst R h root s = Some (h, root, s)"
proof -
  from assms(1) have ta: "tree_at h root t" by (simp add: is_tree_def)
  have "collect_nodes_inorder h root [] = Some (inorder t)"
    using collect_nodes_inorder_tree[OF ta, of "[]"] by simp
  then show ?thesis using assms(2) by (simp add: violate_bst_def)
qed

theorem corruptor_identity_on_small_trees_witness:
  "is_tree [Node_init hr1] (Some 0) (Node Leaf 0 Leaf) \<and> size (Node Leaf (0::nat) Leaf) \<le> 1 \<and>
   violate_bst tape_rng [Node_init hr1] (Some 0) [3, 4] = Some ([Node_init hr1], Some 0, [3, 4])"
proof -
  have t: "is_tree [Node_init hr1] (Some 0) (Node Leaf 0 Leaf)"
    by (simp add: is_tree_def Node_init_def)
  have sz: "size (Node Leaf (0::nat) Leaf) \<le> 1" by simp
  show ?thesis
    by (intro conjI t sz corruptor_identity_on_small_trees[OF t sz])
qed

section \<open>The serializer\<close>

lemma scan_level_fold:
  "fold (\<lambda>node (line_parts, next_level).
             case node of
               None \<Rightarrow> (line_parts @ [''null''], next_level)
             | Some a \<Rightarrow> (line_parts @ [employee_str (emp (h ! a))],
                          next_level @ [left (h ! a), right (h ! a)]))
          cur (lp, nl) =
   (lp @ map (slot_token h) cur, nl @ concat (map (slot_children h) cur))"
  by (induction cur arbitrary: lp nl)
     (auto simp: slot_token_def slot_children_def split: option.splits)

lemma scan_level_eq:
  "scan_level h cur = (map (slot_token h) cur, concat (map (slot_children h) cur))"
  unfolding scan_level_def by (simp add: scan_level_fold)

lemma slot_token_render: "tree_at h p u \<Longrightarrow> slot_token h p = render h u"
  by (cases u) (auto simp: slot_token_def render_def)

lemma slot_children_tree:
  "tree_at h p u \<Longrightarrow> list_all2 (tree_at h) (slot_children h p) (child_slots u)"
  by (cases u) (auto simp: slot_children_def)

lemma tokens_of_slots:
  "list_all2 (tree_at h) cur ts \<Longrightarrow> map (slot_token h) cur = map (render h) ts"
  by (induction rule: list_all2_induct) (auto simp: slot_token_render)

lemma children_of_slots:
  "list_all2 (tree_at h) cur ts \<Longrightarrow>
   list_all2 (tree_at h) (concat (map (slot_children h) cur)) (next_slots ts)"
  unfolding next_slots_def
  by (induction rule: list_all2_induct) (auto intro: list_all2_appendI slot_children_tree)

lemma pop_trailing_none_eq:
  "pop_trailing_none xs = rev (dropWhile (\<lambda>p. p = None) (rev xs))"
proof (induction xs rule: pop_trailing_none.induct)
  case (1 xs)
  show ?case
  proof (cases "xs \<noteq> [] \<and> last xs = None")
    case True
    then have "xs = butlast xs @ [None]" by (metis append_butlast_last_id)
    then have "rev xs = rev (butlast xs @ [None])" by simp
    then have r: "rev xs = None # rev (butlast xs)" by simp
    have "pop_trailing_none xs = pop_trailing_none (butlast xs)"
      using True by (subst pop_trailing_none.simps) simp
    also have "\<dots> = rev (dropWhile (\<lambda>p. p = None) (rev (butlast xs)))"
      using 1 True by simp
    also have "\<dots> = rev (dropWhile (\<lambda>p. p = None) (rev xs))"
      by (subst r) simp
    finally show ?thesis .
  next
    case False
    then have "dropWhile (\<lambda>p. p = None) (rev xs) = rev xs"
      by (cases xs rule: rev_cases) auto
    then show ?thesis using False by (subst pop_trailing_none.simps) auto
  qed
qed

lemma list_all2_dropWhile:
  "list_all2 A xs ys \<Longrightarrow> (\<And>x y. A x y \<Longrightarrow> P x = Q y) \<Longrightarrow>
   list_all2 A (dropWhile P xs) (dropWhile Q ys)"
  by (induction rule: list_all2_induct) auto

lemma tree_at_None_iff: "tree_at h p u \<Longrightarrow> (p = None) = (u = Leaf)"
  by (cases u) auto

lemma pop_trailing_none_slots:
  assumes "list_all2 (tree_at h) ps ts"
  shows "list_all2 (tree_at h) (pop_trailing_none ps) (trim_slots ts)"
proof -
  have "list_all2 (tree_at h) (rev ps) (rev ts)" using assms by simp
  then have "list_all2 (tree_at h) (dropWhile (\<lambda>p. p = None) (rev ps)) (dropWhile (\<lambda>u. u = Leaf) (rev ts))"
    by (rule list_all2_dropWhile) (rule tree_at_None_iff)
  then show ?thesis by (simp add: pop_trailing_none_eq trim_slots_def)
qed

lemma employee_str_not_null: "employee_str e \<noteq> ''null''"
proof
  assume "employee_str e = ''null''"
  then have "set (employee_str e) = set ''null''" by simp
  moreover have "CHR '','' \<in> set (employee_str e)" by (simp add: employee_str_def)
  ultimately show False by simp
qed

lemma render_null_iff: "render h u = ''null'' \<longleftrightarrow> u = Leaf"
  by (cases u) (simp_all add: render_def employee_str_not_null)

lemma takeWhile_Leaf: "takeWhile (\<lambda>u. u = Leaf) xs = replicate (length (takeWhile (\<lambda>u. u = Leaf) xs)) Leaf"
  by (induction xs) auto

lemma trim_slots_decomp: "\<exists>n. ts = trim_slots ts @ replicate n Leaf"
proof -
  let ?P = "\<lambda>u::nat tree. u = Leaf"
  have "rev (rev ts) = rev (takeWhile ?P (rev ts) @ dropWhile ?P (rev ts))"
    by (simp only: takeWhile_dropWhile_id)
  then have "ts = rev (dropWhile ?P (rev ts)) @ rev (takeWhile ?P (rev ts))"
    by (simp only: rev_rev_ident rev_append)
  then have "ts = trim_slots ts @ rev (takeWhile ?P (rev ts))" by (simp only: trim_slots_def)
  moreover have "rev (takeWhile ?P (rev ts)) = replicate (length (takeWhile ?P (rev ts))) Leaf"
    by (subst takeWhile_Leaf) simp
  ultimately show ?thesis by metis
qed

lemma trim_slots_last: "trim_slots ts \<noteq> [] \<Longrightarrow> last (trim_slots ts) \<noteq> Leaf"
proof -
  assume "trim_slots ts \<noteq> []"
  then have ne: "dropWhile (\<lambda>u. u = Leaf) (rev ts) \<noteq> []" by (simp add: trim_slots_def)
  then have "hd (dropWhile (\<lambda>u. u = Leaf) (rev ts)) \<noteq> Leaf" by (rule hd_dropWhile)
  then show ?thesis using ne by (simp add: trim_slots_def last_rev)
qed

lemma trim_slots_Nil_iff: "trim_slots ts = [] \<longleftrightarrow> (\<forall>u \<in> set ts. u = Leaf)"
  by (simp add: trim_slots_def dropWhile_eq_Nil_conv)

lemma next_slots_append: "next_slots (xs @ ys) = next_slots xs @ next_slots ys"
  by (simp add: next_slots_def)

lemma next_slots_replicate_Leaf: "next_slots (replicate n Leaf) = []"
  by (induction n) (simp_all add: next_slots_def)

lemma next_slots_trim: "next_slots (trim_slots ts) = next_slots ts"
proof -
  obtain n where "ts = trim_slots ts @ replicate n Leaf" using trim_slots_decomp by blast
  then have "next_slots ts = next_slots (trim_slots ts @ replicate n Leaf)" by simp
  then show ?thesis by (simp add: next_slots_append next_slots_replicate_Leaf)
qed

lemma filter_present_trim:
  "filter (\<lambda>u. u \<noteq> Leaf) (trim_slots ts) = filter (\<lambda>u. u \<noteq> Leaf) ts"
proof -
  obtain n where "ts = trim_slots ts @ replicate n Leaf" using trim_slots_decomp by blast
  then have "filter (\<lambda>u. u \<noteq> Leaf) ts = filter (\<lambda>u. u \<noteq> Leaf) (trim_slots ts @ replicate n Leaf)"
    by simp
  then show ?thesis by simp
qed

lemma level_slots_funpow: "level_slots t k = (next_slots ^^ k) [t]"
  by (induction k) simp_all

lemma present_in_next_slots:
  "(\<exists>u \<in> set (next_slots ts). k < height u) \<longleftrightarrow> (\<exists>u \<in> set ts. Suc k < height u)"
proof (induction ts)
  case Nil
  then show ?case by (simp add: next_slots_def)
next
  case (Cons t ts)
  have "(\<exists>u \<in> set (child_slots t). k < height u) \<longleftrightarrow> Suc k < height t"
    by (cases t) auto
  then show ?case using Cons by (auto simp: next_slots_def)
qed

lemma present_in_funpow:
  "(\<exists>u \<in> set ((next_slots ^^ k) ts). u \<noteq> Leaf) \<longleftrightarrow> (\<exists>u \<in> set ts. k < height u)"
proof (induction k arbitrary: ts)
  case 0
  have "\<And>u::nat tree. u \<noteq> Leaf \<longleftrightarrow> 0 < height u"
    subgoal for u by (cases u) simp_all
    done
  then show ?case by simp
next
  case (Suc k)
  have "(next_slots ^^ Suc k) ts = (next_slots ^^ k) (next_slots ts)" by (simp add: funpow_swap1)
  then show ?case using Suc[of "next_slots ts"] present_in_next_slots[of ts k] by simp
qed

lemma level_present_iff: "(\<exists>u \<in> set (level_slots t k). u \<noteq> Leaf) \<longleftrightarrow> k < height t"
  by (simp add: level_slots_funpow present_in_funpow)

lemma size_next_slots:
  "sum_list (map size ts) = length (filter (\<lambda>u. u \<noteq> Leaf) ts) + sum_list (map size (next_slots ts))"
proof (induction ts)
  case Nil
  then show ?case by (simp add: next_slots_def)
next
  case (Cons t ts)
  have "size t = (if t \<noteq> Leaf then 1 else 0) + sum_list (map size (child_slots t))"
    by (cases t) auto
  then show ?case using Cons by (simp add: next_slots_def)
qed

lemma sum_list_upt_head:
  "(\<Sum>k\<leftarrow>[0..<Suc n]. f k) = (f 0 :: nat) + (\<Sum>k\<leftarrow>[0..<n]. f (Suc k))"
proof -
  have "[0..<Suc n] = 0 # map Suc [0..<n]"
    by (simp only: map_Suc_upt upt_conv_Cons[OF zero_less_Suc])
  then show ?thesis by (simp only: list.map sum_list.Cons map_map o_def)
qed

lemma size_by_levels:
  "\<forall>u \<in> set ts. height u \<le> n \<Longrightarrow>
   sum_list (map size ts) =
     (\<Sum>k\<leftarrow>[0..<n]. length (filter (\<lambda>u. u \<noteq> Leaf) ((next_slots ^^ k) ts)))"
proof (induction n arbitrary: ts)
  case 0
  then have "\<forall>u \<in> set ts. size u = 0" by simp
  then show ?case by (simp add: sum_list_eq_0_iff)
next
  case (Suc n)
  have "\<forall>u \<in> set (next_slots ts). height u \<le> n"
    using Suc.prems present_in_next_slots[of ts n] by (meson not_less)
  from Suc.IH[OF this] have
    "sum_list (map size (next_slots ts)) =
       (\<Sum>k\<leftarrow>[0..<n]. length (filter (\<lambda>u. u \<noteq> Leaf) ((next_slots ^^ Suc k) ts)))"
    by (simp add: funpow_swap1)
  then have "sum_list (map size ts) =
      length (filter (\<lambda>u. u \<noteq> Leaf) ((next_slots ^^ 0) ts)) +
      (\<Sum>k\<leftarrow>[0..<n]. length (filter (\<lambda>u. u \<noteq> Leaf) ((next_slots ^^ Suc k) ts)))"
    using size_next_slots[of ts] by simp
  also have "\<dots> = (\<Sum>k\<leftarrow>[0..<Suc n]. length (filter (\<lambda>u. u \<noteq> Leaf) ((next_slots ^^ k) ts)))"
    by (simp only: sum_list_upt_head)
  finally show ?case .
qed

lemma present_renders:
  assumes "\<exists>u \<in> set (level_slots t k). u \<noteq> Leaf"
  shows "\<exists>tok \<in> set (level_tokens h t k). tok \<noteq> ''null''"
proof -
  from assms have "filter (\<lambda>u. u \<noteq> Leaf) (level_slots t k) \<noteq> []"
    by (simp add: filter_empty_conv)
  then have "filter (\<lambda>u. u \<noteq> Leaf) (trim_slots (level_slots t k)) \<noteq> []"
    by (simp add: filter_present_trim)
  then obtain u where "u \<in> set (trim_slots (level_slots t k))" "u \<noteq> Leaf"
    by (auto simp: filter_empty_conv)
  then have "render h u \<in> set (level_tokens h t k)" "render h u \<noteq> ''null''"
    by (simp_all add: level_tokens_def render_null_iff)
  then show ?thesis by blast
qed

lemma serialize_loop_levels:
  assumes "list_all2 (tree_at h) cur (trim_slots (level_slots t k))"
    and "n = height t - k" and "k \<le> height t"
  shows "serialize_loop h cur acc =
      Some (acc @ map (\<lambda>k. join_space (level_tokens h t k)) [k..<height t])"
  using assms
proof (induction n arbitrary: k cur acc)
  case 0
  then have "k = height t" by simp
  then have "\<not> (\<exists>u \<in> set (level_slots t k). u \<noteq> Leaf)" by (simp add: level_present_iff)
  then have "trim_slots (level_slots t k) = []" by (simp add: trim_slots_Nil_iff)
  then have "cur = []" using "0.prems"(1) by simp
  then show ?case using \<open>k = height t\<close> by (subst serialize_loop.simps) simp
next
  case (Suc n)
  then have k: "k < height t" by simp
  then have pres: "\<exists>u \<in> set (level_slots t k). u \<noteq> Leaf" by (simp add: level_present_iff)
  then have "trim_slots (level_slots t k) \<noteq> []" by (simp add: trim_slots_Nil_iff)
  then have ne: "cur \<noteq> []" using Suc.prems(1) by auto
  have parts: "map (slot_token h) cur = level_tokens h t k"
    using tokens_of_slots[OF Suc.prems(1)] by (simp add: level_tokens_def)
  have emit: "\<exists>part \<in> set (level_tokens h t k). part \<noteq> ''null''"
    using pres by (rule present_renders)
  have "list_all2 (tree_at h) (concat (map (slot_children h) cur)) (next_slots (trim_slots (level_slots t k)))"
    using Suc.prems(1) by (rule children_of_slots)
  then have "list_all2 (tree_at h) (concat (map (slot_children h) cur)) (level_slots t (Suc k))"
    by (simp add: next_slots_trim)
  then have nxt: "list_all2 (tree_at h) (pop_trailing_none (concat (map (slot_children h) cur)))
      (trim_slots (level_slots t (Suc k)))"
    by (rule pop_trailing_none_slots)
  have ih: "serialize_loop h (pop_trailing_none (concat (map (slot_children h) cur)))
        (acc @ [join_space (level_tokens h t k)]) =
      Some ((acc @ [join_space (level_tokens h t k)]) @
        map (\<lambda>k. join_space (level_tokens h t k)) [Suc k..<height t])"
    using Suc.prems(2) k by (intro Suc.IH[OF nxt]) simp_all
  have step: "serialize_loop h cur acc =
      serialize_loop h (pop_trailing_none (concat (map (slot_children h) cur)))
        (acc @ [join_space (level_tokens h t k)])"
    using ne emit by (subst serialize_loop.simps) (simp add: scan_level_eq parts)
  have "[k..<height t] = k # [Suc k..<height t]" using k by (rule upt_conv_Cons)
  then show ?case using step ih by simp
qed

lemma serialize_tree_levels:
  assumes "tree_at h root t"
  shows "serialize_tree h root = Some (map (\<lambda>k. join_space (level_tokens h t k)) [0..<height t])"
proof (cases t)
  case Leaf
  then show ?thesis using assms by (simp add: serialize_tree_def)
next
  case (Node l a r)
  then have root: "root = Some a" using assms by simp
  have "trim_slots (level_slots t 0) = [t]" using Node by (simp add: trim_slots_def)
  then have "list_all2 (tree_at h) [Some a] (trim_slots (level_slots t 0))"
    using assms root by simp
  from serialize_loop_levels[OF this, of "height t" "[]"] show ?thesis
    using root by (simp add: serialize_tree_def)
qed

lemma present_count:
  "length (filter (\<lambda>tok. tok \<noteq> ''null'') (level_tokens h t k)) =
   length (filter (\<lambda>u. u \<noteq> Leaf) (level_slots t k))"
proof -
  have "filter (\<lambda>tok. tok \<noteq> ''null'') (map (render h) (trim_slots (level_slots t k))) =
      map (render h) (filter (\<lambda>u. u \<noteq> Leaf) (trim_slots (level_slots t k)))"
    by (simp add: filter_map o_def render_null_iff)
  then show ?thesis by (simp add: level_tokens_def filter_present_trim)
qed

lemma present_tokens_count:
  "length (filter (\<lambda>tok. tok \<noteq> ''null'') (concat (all_tokens h t))) = size t"
proof -
  have "length (filter (\<lambda>tok. tok \<noteq> ''null'') (concat (all_tokens h t))) =
      (\<Sum>k\<leftarrow>[0..<height t]. length (filter (\<lambda>tok. tok \<noteq> ''null'') (level_tokens h t k)))"
    by (simp add: all_tokens_def filter_concat length_concat o_def)
  also have "\<dots> = (\<Sum>k\<leftarrow>[0..<height t]. length (filter (\<lambda>u. u \<noteq> Leaf) ((next_slots ^^ k) [t])))"
    by (simp only: present_count level_slots_funpow)
  also have "\<dots> = sum_list (map size [t])"
    by (rule size_by_levels[symmetric]) simp
  finally show ?thesis by simp
qed

text \<open>
  C3. For every nonempty tree the serializer returns one line per level that has a
  present node, in level order, and nothing after them. The tokens of the line of level
  \<open>k\<close> render the slot list of that level with its trailing absent slots dropped and
  nothing else dropped: the kept slots end in a present node, so an absent slot followed
  by a present one of the same level stays and is rendered as \<open>null\<close>. Every line has a
  token other than \<open>null\<close>, and the first level without a line is the one whose slots are
  all absent.
\<close>

theorem serializer_levels:
  assumes "is_tree h root t" and "t \<noteq> Leaf"
  shows "serialize_tree h root =
        Some (map (\<lambda>k. join_space (map (render h) (trim_slots (level_slots t k)))) [0..<height t]) \<and>
      (\<forall>k < height t.
         (\<exists>n. level_slots t k = trim_slots (level_slots t k) @ replicate n Leaf) \<and>
         trim_slots (level_slots t k) \<noteq> [] \<and>
         last (trim_slots (level_slots t k)) \<noteq> Leaf \<and>
         last (map (render h) (trim_slots (level_slots t k))) \<noteq> ''null'' \<and>
         (\<exists>tok \<in> set (map (render h) (trim_slots (level_slots t k))). tok \<noteq> ''null'')) \<and>
      (\<forall>u \<in> set (level_slots t (height t)). u = Leaf)"
proof -
  from assms(1) have ta: "tree_at h root t" by (simp add: is_tree_def)
  have 1: "serialize_tree h root =
      Some (map (\<lambda>k. join_space (map (render h) (trim_slots (level_slots t k)))) [0..<height t])"
    using serialize_tree_levels[OF ta] by (simp only: level_tokens_def)
  have 2: "\<forall>k < height t.
         (\<exists>n. level_slots t k = trim_slots (level_slots t k) @ replicate n Leaf) \<and>
         trim_slots (level_slots t k) \<noteq> [] \<and>
         last (trim_slots (level_slots t k)) \<noteq> Leaf \<and>
         last (map (render h) (trim_slots (level_slots t k))) \<noteq> ''null'' \<and>
         (\<exists>tok \<in> set (map (render h) (trim_slots (level_slots t k))). tok \<noteq> ''null'')"
  proof (intro allI impI)
    fix k assume "k < height t"
    then have pres: "\<exists>u \<in> set (level_slots t k). u \<noteq> Leaf" by (simp add: level_present_iff)
    then have ne: "trim_slots (level_slots t k) \<noteq> []" by (simp add: trim_slots_Nil_iff)
    then have lst: "last (trim_slots (level_slots t k)) \<noteq> Leaf" by (rule trim_slots_last)
    have ltok: "last (map (render h) (trim_slots (level_slots t k))) \<noteq> ''null''"
      using ne lst by (simp add: last_map render_null_iff)
    have ex: "\<exists>tok \<in> set (map (render h) (trim_slots (level_slots t k))). tok \<noteq> ''null''"
      using present_renders[OF pres, of h] by (simp only: level_tokens_def)
    show "(\<exists>n. level_slots t k = trim_slots (level_slots t k) @ replicate n Leaf) \<and>
         trim_slots (level_slots t k) \<noteq> [] \<and>
         last (trim_slots (level_slots t k)) \<noteq> Leaf \<and>
         last (map (render h) (trim_slots (level_slots t k))) \<noteq> ''null'' \<and>
         (\<exists>tok \<in> set (map (render h) (trim_slots (level_slots t k))). tok \<noteq> ''null'')"
      by (intro conjI trim_slots_decomp ne lst ltok ex)
  qed
  have 3: "\<forall>u \<in> set (level_slots t (height t)). u = Leaf"
    using level_present_iff[of t "height t"] by simp
  show ?thesis by (intro conjI 1 2 3)
qed

theorem serializer_levels_witness:
  "is_tree (right_child_store hr1 hr2) (Some 0) right_child_shape \<and> right_child_shape \<noteq> Leaf \<and>
   serialize_tree (right_child_store hr1 hr2) (Some 0) =
     Some [''name1,HR,1,Junior,1000'', ''null name2,HR,2,Senior,2000'']"
proof -
  have t: "is_tree (right_child_store hr1 hr2) (Some 0) right_child_shape"
    by (simp add: is_tree_def right_child_store_def right_child_shape_def)
  have ne: "right_child_shape \<noteq> Leaf" by (simp add: right_child_shape_def)
  have h: "[0..<height right_child_shape] = [0, 1]" by (simp add: right_child_shape_def)
  have str: "employee_str hr1 = ''name1,HR,1,Junior,1000''" "employee_str hr2 = ''name2,HR,2,Senior,2000''"
    by (simp_all add: employee_str_def hr1_def hr2_def hr_record_def str_int_def str_nat.simps digit_char_def)
  have "serialize_tree (right_child_store hr1 hr2) (Some 0) =
      Some [employee_str hr1, ''null '' @ employee_str hr2]"
    unfolding serializer_levels[OF t ne, THEN conjunct1] h
    by (simp add: trim_slots_def next_slots_def render_def right_child_shape_def right_child_store_def)
  then show ?thesis using t ne by (simp add: str)
qed

lemma nodes_next_slots:
  "mset (concat (map inorder ts)) =
     mset (present_nodes ts) + mset (concat (map inorder (next_slots ts)))"
proof (induction ts)
  case Nil
  then show ?case by (simp add: present_nodes_def next_slots_def)
next
  case (Cons u ts)
  have "mset (inorder u) = mset (slot_node u) + mset (concat (map inorder (child_slots u)))"
    by (cases u) simp_all
  then show ?case using Cons by (simp add: present_nodes_def next_slots_def)
qed

lemma concat_upt_head:
  "concat (map f [0..<Suc n]) = f 0 @ concat (map (\<lambda>k. f (Suc k)) [0..<n])"
proof -
  have "[0..<Suc n] = 0 # map Suc [0..<n]"
    by (simp only: map_Suc_upt upt_conv_Cons[OF zero_less_Suc])
  then show ?thesis by (simp only: list.map concat.simps map_map o_def)
qed

lemma nodes_by_levels:
  "\<forall>u \<in> set ts. height u \<le> n \<Longrightarrow>
   mset (concat (map inorder ts)) =
     mset (concat (map (\<lambda>k. present_nodes ((next_slots ^^ k) ts)) [0..<n]))"
proof (induction n arbitrary: ts)
  case 0
  then have "\<forall>u \<in> set ts. inorder u = []" by simp
  then have "concat (map inorder ts) = []" by simp
  then show ?case by simp
next
  case (Suc n)
  have "\<forall>u \<in> set (next_slots ts). height u \<le> n"
    using Suc.prems present_in_next_slots[of ts n] by (meson not_less)
  from Suc.IH[OF this] have
    "mset (concat (map inorder (next_slots ts))) =
       mset (concat (map (\<lambda>k. present_nodes ((next_slots ^^ Suc k) ts)) [0..<n]))"
    by (simp add: funpow_swap1)
  then have "mset (concat (map inorder ts)) =
      mset (present_nodes ((next_slots ^^ 0) ts)) +
      mset (concat (map (\<lambda>k. present_nodes ((next_slots ^^ Suc k) ts)) [0..<n]))"
    using nodes_next_slots[of ts] by simp
  also have "\<dots> = mset (concat (map (\<lambda>k. present_nodes ((next_slots ^^ k) ts)) [0..<Suc n]))"
    by (simp only: concat_upt_head mset_append)
  finally show ?case .
qed

lemma present_tokens:
  "filter (\<lambda>tok. tok \<noteq> ''null'') (map (render h) us) =
   map (\<lambda>a. employee_str (emp (h ! a))) (present_nodes us)"
proof (induction us)
  case Nil
  then show ?case by (simp add: present_nodes_def)
next
  case (Cons u us)
  then show ?case
    by (cases u) (simp_all add: present_nodes_def render_def employee_str_not_null)
qed

lemma present_nodes_trim: "present_nodes (trim_slots ts) = present_nodes ts"
proof -
  obtain n where "ts = trim_slots ts @ replicate n Leaf" using trim_slots_decomp by blast
  then have "present_nodes ts = present_nodes (trim_slots ts @ replicate n Leaf)" by simp
  also have "\<dots> = present_nodes (trim_slots ts) @ present_nodes (replicate n Leaf)"
    by (simp add: present_nodes_def)
  also have "present_nodes (replicate n Leaf) = []"
    by (induction n) (simp_all add: present_nodes_def)
  finally show ?thesis by simp
qed

lemma present_tokens_nodes:
  "mset (filter (\<lambda>tok. tok \<noteq> ''null'') (concat (all_tokens h t))) =
   mset (map (\<lambda>a. employee_str (emp (h ! a))) (inorder t))"
proof -
  let ?f = "\<lambda>a. employee_str (emp (h ! a))"
  have "filter (\<lambda>tok. tok \<noteq> ''null'') (concat (all_tokens h t)) =
      concat (map (\<lambda>k. map ?f (present_nodes ((next_slots ^^ k) [t]))) [0..<height t])"
    by (simp add: all_tokens_def level_tokens_def filter_concat o_def present_tokens
        present_nodes_trim level_slots_funpow)
  also have "\<dots> = map ?f (concat (map (\<lambda>k. present_nodes ((next_slots ^^ k) [t])) [0..<height t]))"
    by (simp add: map_concat o_def)
  finally have "mset (filter (\<lambda>tok. tok \<noteq> ''null'') (concat (all_tokens h t))) =
      image_mset ?f (mset (concat (map (\<lambda>k. present_nodes ((next_slots ^^ k) [t])) [0..<height t])))"
    by simp
  also have "mset (concat (map (\<lambda>k. present_nodes ((next_slots ^^ k) [t])) [0..<height t])) =
      mset (concat (map inorder [t]))"
    by (rule nodes_by_levels[symmetric]) simp
  finally show ?thesis by simp
qed

subsection \<open>Tokens of the returned lines\<close>

lemma split_space_word: "CHR '' '' \<notin> set p \<Longrightarrow> split_space p = [p]"
  by (induction p) auto

lemma split_space_append:
  "CHR '' '' \<notin> set p \<Longrightarrow> split_space (p @ CHR '' '' # rest) = p # split_space rest"
  by (induction p) auto

lemma split_space_join:
  "ps \<noteq> [] \<Longrightarrow> \<forall>p \<in> set ps. CHR '' '' \<notin> set p \<Longrightarrow> split_space (join_space ps) = ps"
proof (induction ps rule: join_space.induct)
  case 1
  then show ?case by simp
next
  case (2 p)
  then show ?case by (simp add: split_space_word)
next
  case (3 p q ps)
  then have "split_space (join_space (q # ps)) = q # ps" by simp
  moreover have "CHR '' '' \<notin> set p" using 3(3) by simp
  ultimately show ?case by (simp add: split_space_append)
qed

lemma level_slots_subtree: "u \<in> set (level_slots t k) \<Longrightarrow> set_tree u \<subseteq> set_tree t"
proof (induction k arbitrary: u)
  case 0
  then show ?case by simp
next
  case (Suc k)
  then obtain v where v: "v \<in> set (level_slots t k)" and u: "u \<in> set (child_slots v)"
    by (auto simp: next_slots_def)
  have "set_tree u \<subseteq> set_tree v" using u by (cases v) auto
  then show ?case using Suc.IH[OF v] by blast
qed

lemma set_trim_slots: "set (trim_slots ts) \<subseteq> set ts"
proof -
  obtain n where "ts = trim_slots ts @ replicate n Leaf" using trim_slots_decomp by blast
  then have "set ts = set (trim_slots ts @ replicate n Leaf)" by simp
  then show ?thesis by auto
qed

lemma level_tokens_space_free:
  assumes "\<forall>a \<in> set_tree t. CHR '' '' \<notin> set (employee_str (emp (h ! a)))"
    and "tok \<in> set (level_tokens h t k)"
  shows "CHR '' '' \<notin> set tok"
proof -
  from assms(2) obtain u where u: "u \<in> set (trim_slots (level_slots t k))" and tok: "tok = render h u"
    by (auto simp: level_tokens_def)
  have sub: "set_tree u \<subseteq> set_tree t"
    using u set_trim_slots level_slots_subtree by blast
  show ?thesis
  proof (cases u)
    case Leaf
    then show ?thesis using tok by (simp add: render_def)
  next
    case (Node l a r)
    then have "a \<in> set_tree t" using sub by auto
    then show ?thesis using assms(1) tok Node by (simp add: render_def)
  qed
qed

lemma level_tokens_nonempty: "k < height t \<Longrightarrow> level_tokens h t k \<noteq> []"
proof -
  assume "k < height t"
  then have "\<exists>u \<in> set (level_slots t k). u \<noteq> Leaf" by (simp add: level_present_iff)
  then have "trim_slots (level_slots t k) \<noteq> []" by (simp add: trim_slots_Nil_iff)
  then show ?thesis by (simp add: level_tokens_def)
qed

lemma split_returned_lines:
  assumes "\<forall>a \<in> set_tree t. CHR '' '' \<notin> set (employee_str (emp (h ! a)))"
  shows "map split_space (map join_space (all_tokens h t)) = all_tokens h t"
proof -
  have "\<forall>ps \<in> set (all_tokens h t). split_space (join_space ps) = ps"
  proof
    fix ps assume "ps \<in> set (all_tokens h t)"
    then obtain k where k: "k < height t" and ps: "ps = level_tokens h t k"
      by (auto simp: all_tokens_def)
    have "ps \<noteq> []" using k ps by (simp add: level_tokens_nonempty)
    moreover have "\<forall>p \<in> set ps. CHR '' '' \<notin> set p"
      using level_tokens_space_free[OF assms] ps by blast
    ultimately show "split_space (join_space ps) = ps" by (rule split_space_join)
  qed
  then show ?thesis by (simp add: map_idI)
qed

text \<open>
  C10. For every tree (the empty one too) whose record lines have no space in them, as
  those of generated records have none: the serializer returns, and the tokens of the
  lines it returns (each line cut at its spaces) are the renderings of the slots of the
  levels. Among all these tokens, those other than \<open>null\<close> are as many as the tree has
  nodes; they are the record lines of the nodes, each node once; and a token is \<open>null\<close>
  exactly when its slot is absent.
\<close>

theorem serializer_renders_each_node_once:
  assumes "is_tree h root t"
    and "\<forall>a \<in> set_tree t. CHR '' '' \<notin> set (employee_str (emp (h ! a)))"
  shows "\<exists>lines. serialize_tree h root = Some lines \<and>
      map split_space lines = all_tokens h t \<and>
      length (filter (\<lambda>tok. tok \<noteq> ''null'') (concat (map split_space lines))) = size t \<and>
      size t = card (reachable h root) \<and>
      mset (filter (\<lambda>tok. tok \<noteq> ''null'') (concat (map split_space lines))) =
        mset (map (\<lambda>a. employee_str (emp (h ! a))) (inorder t)) \<and>
      distinct (inorder t) \<and> set (inorder t) = reachable h root \<and>
      (\<forall>u. render h u = ''null'' \<longleftrightarrow> u = Leaf)"
proof -
  from assms(1) have ta: "tree_at h root t" and d: "distinct (inorder t)"
    by (simp_all add: is_tree_def)
  let ?lines = "map join_space (all_tokens h t)"
  have 1: "serialize_tree h root = Some ?lines"
    using serialize_tree_levels[OF ta] by (simp add: all_tokens_def o_def)
  have 2: "map split_space ?lines = all_tokens h t"
    using assms(2) by (rule split_returned_lines)
  have 3: "length (filter (\<lambda>tok. tok \<noteq> ''null'') (concat (map split_space ?lines))) = size t"
    unfolding 2 by (rule present_tokens_count)
  have 4: "size t = card (reachable h root)"
    using card_set_tree[OF d] reachable_tree[OF ta] by simp
  have 5: "mset (filter (\<lambda>tok. tok \<noteq> ''null'') (concat (map split_space ?lines))) =
        mset (map (\<lambda>a. employee_str (emp (h ! a))) (inorder t))"
    unfolding 2 by (rule present_tokens_nodes)
  have 6: "set (inorder t) = reachable h root" using reachable_tree[OF ta] by simp
  have 7: "\<forall>u. render h u = ''null'' \<longleftrightarrow> u = Leaf" by (simp add: render_null_iff)
  show ?thesis by (rule exI[of _ ?lines]) (intro conjI 1 2 3 4 5 d 6 7)
qed

theorem serializer_renders_each_node_once_witness:
  "is_tree (right_child_store hr1 hr2) (Some 0) right_child_shape \<and>
   CHR '' '' \<notin> set (employee_str (emp (right_child_store hr1 hr2 ! 0))) \<and>
   CHR '' '' \<notin> set (employee_str (emp (right_child_store hr1 hr2 ! 1))) \<and>
   serialize_tree (right_child_store hr1 hr2) (Some 0) =
     Some [''name1,HR,1,Junior,1000'', ''null name2,HR,2,Senior,2000''] \<and>
   map split_space [''name1,HR,1,Junior,1000'', ''null name2,HR,2,Senior,2000''] =
     [[''name1,HR,1,Junior,1000''], [''null'', ''name2,HR,2,Senior,2000'']] \<and>
   length (filter (\<lambda>tok. tok \<noteq> ''null'')
     (concat (map split_space [''name1,HR,1,Junior,1000'', ''null name2,HR,2,Senior,2000'']))) =
     size right_child_shape"
proof -
  have t: "is_tree (right_child_store hr1 hr2) (Some 0) right_child_shape"
    by (simp add: is_tree_def right_child_store_def right_child_shape_def)
  have str: "employee_str hr1 = ''name1,HR,1,Junior,1000''" "employee_str hr2 = ''name2,HR,2,Senior,2000''"
    by (simp_all add: employee_str_def hr1_def hr2_def hr_record_def str_int_def str_nat.simps digit_char_def)
  have s0: "CHR '' '' \<notin> set (employee_str (emp (right_child_store hr1 hr2 ! 0)))"
    by (simp add: right_child_store_def str)
  have s1: "CHR '' '' \<notin> set (employee_str (emp (right_child_store hr1 hr2 ! 1)))"
    by (simp add: right_child_store_def str)
  have sf: "\<forall>a \<in> set_tree right_child_shape.
      CHR '' '' \<notin> set (employee_str (emp (right_child_store hr1 hr2 ! a)))"
    using s0 s1 by (simp add: right_child_shape_def)
  have h: "[0..<height right_child_shape] = [0, 1]" by (simp add: right_child_shape_def)
  have tok: "all_tokens (right_child_store hr1 hr2) right_child_shape =
      [[''name1,HR,1,Junior,1000''], [''null'', ''name2,HR,2,Senior,2000'']]"
    unfolding all_tokens_def h
    by (simp add: level_tokens_def trim_slots_def next_slots_def render_def right_child_shape_def
        right_child_store_def str)
  from serializer_renders_each_node_once[OF t sf] obtain lines where
    ser: "serialize_tree (right_child_store hr1 hr2) (Some 0) = Some lines" and
    sp: "map split_space lines = all_tokens (right_child_store hr1 hr2) right_child_shape" and
    cnt: "length (filter (\<lambda>tok. tok \<noteq> ''null'') (concat (map split_space lines))) = size right_child_shape"
    by (elim exE conjE) (rule that)
  have "serialize_tree (right_child_store hr1 hr2) (Some 0) =
      Some (map join_space (all_tokens (right_child_store hr1 hr2) right_child_shape))"
    using serialize_tree_levels[of "right_child_store hr1 hr2" "Some 0" right_child_shape] t
    by (simp add: is_tree_def all_tokens_def o_def)
  then have lines: "lines = [''name1,HR,1,Junior,1000'', ''null name2,HR,2,Senior,2000'']"
    using ser by (simp add: tok)
  show ?thesis
    using t s0 s1 ser sp cnt unfolding lines tok by (intro conjI) 
qed

section \<open>The two-record scenario\<close>

lemma Node_init_sel [simp]:
  "emp (Node_init e) = e" "left (Node_init e) = None" "right (Node_init e) = None"
  by (simp_all add: Node_init_def)

lemma two_nodes_built: "[(Node_init a)\<lparr>left := Some (Suc 0)\<rparr>, Node_init b] = two_nodes a b"
  by (simp add: two_nodes_def Node_init_def)

lemma insert_two:
  assumes "key e1 < key e2"
  shows "insert_all [] None [e2, e1] = Some (two_nodes e2 e1, Some 0)"
proof -
  have 1: "insert_node [] None e2 = Some ([Node_init e2], 0)"
    by (subst insert_node.simps) simp
  have 2: "insert_node [Node_init e2] None e1 = Some ([Node_init e2, Node_init e1], 1)"
    by (subst insert_node.simps) simp
  have 3: "insert_node [Node_init e2] (Some 0) e1 = Some (two_nodes e2 e1, 0)"
    using assms by (subst insert_node.simps) (simp add: 2 two_nodes_built)
  show ?thesis by (simp add: 1 3)
qed

lemma serialize_two:
  "serialize_tree (two_nodes a b) (Some 0) = Some [employee_str a, employee_str b]"
proof -
  have ta: "tree_at (two_nodes a b) (Some 0) two_shape"
    using is_tree_two_nodes[of a b] by (simp add: is_tree_def)
  have h: "[0..<height two_shape] = [0, 1]" by (simp add: two_shape_def)
  show ?thesis
    unfolding serialize_tree_levels[OF ta] h
    by (simp add: level_tokens_def trim_slots_def next_slots_def render_def two_shape_def two_nodes_def)
qed

lemma violate_two:
  assumes "rng_ok R"
  shows "violate_bst R (two_nodes a b) (Some 0) s = Some (two_nodes b a, Some 0, snd (sample2 R 2 s))"
proof -
  have col: "collect_nodes_inorder (two_nodes a b) (Some 0) [] = Some [1, 0]"
    using collect_nodes_inorder_tree[of "two_nodes a b" "Some 0" two_shape "[]"] is_tree_two_nodes[of a b]
    by (simp add: is_tree_def two_shape_def)
  obtain i j s' where smp: "sample2 R 2 s = ((i, j), s')" by (metis surj_pair)
  have ij: "i < 2" "j < 2" "i \<noteq> j"
    using assms smp unfolding rng_ok_def by (metis fst_conv snd_conv order_refl)+
  have len: "length [1::nat, 0] = 2" by simp
  have v: "violate_bst R (two_nodes a b) (Some 0) s =
      (let x = [1::nat, 0] ! i; y = [1::nat, 0] ! j;
           h1 = (two_nodes a b)[x := (two_nodes a b ! x)\<lparr>emp := emp (two_nodes a b ! y)\<rparr>];
           h2 = h1[y := (h1 ! y)\<lparr>emp := emp (two_nodes a b ! x)\<rparr>]
       in Some (h2, Some 0, s'))"
    unfolding violate_bst_def col by (simp only: bind.bind_lunit len smp Let_def prod.case) simp
  from ij have "(i = 0 \<and> j = 1) \<or> (i = 1 \<and> j = 0)" by auto
  then show ?thesis
  proof
    assume "i = 0 \<and> j = 1"
    then show ?thesis unfolding v smp by (simp add: two_nodes_def)
  next
    assume "i = 1 \<and> j = 0"
    then show ?thesis unfolding v smp by (simp add: two_nodes_def)
  qed
qed

lemma build_two:
  assumes lt: "key e1 < key e2" and sh: "shuffle R 2 s = ([1, 0], s1)"
  shows "build_valid_bst_from_list R [] [e1, e2] s = Some ((two_nodes e2 e1, Some 0), s1)"
proof -
  have len: "length [e1, e2] = 2" by simp
  have shuffled: "map (\<lambda>i. [e1, e2] ! i) [1, 0] = [e2, e1]" by simp
  show ?thesis
    unfolding build_valid_bst_from_list_def len sh
    by (simp only: Let_def prod.case shuffled insert_two[OF lt] bind.bind_lunit)
qed

text \<open>
  C9. Two records with keys (HR, 1) and (HR, 2), whatever their other fields, inserted in
  the order (HR, 2), (HR, 1): the builder returns a root holding (HR, 2) whose left child
  holds (HR, 1); the serializer returns two lines, the root's record line and then the left
  child's; the corruptor swaps the two payloads, and the in-order traversal of the result
  reads (HR, 2), (HR, 1), which is decreasing.
\<close>

theorem two_records_scenario:
  assumes "rng_ok R" and "fst (shuffle R 2 s) = [1, 0]"
  shows "let e1 = hr_record n1 1 t1 p1; e2 = hr_record n2 2 t2 p2 in
     \<exists>s1 s2.
       build_valid_bst_from_list R [] [e1, e2] s = Some ((two_nodes e2 e1, Some 0), s1) \<and>
       key (emp (two_nodes e2 e1 ! 0)) = (''HR'', 2) \<and>
       left (two_nodes e2 e1 ! 0) = Some 1 \<and>
       key (emp (two_nodes e2 e1 ! 1)) = (''HR'', 1) \<and>
       serialize_tree (two_nodes e2 e1) (Some 0) = Some [employee_str e2, employee_str e1] \<and>
       violate_bst R (two_nodes e2 e1) (Some 0) s1 = Some (two_nodes e1 e2, Some 0, s2) \<and>
       collect_nodes_inorder (two_nodes e1 e2) (Some 0) [] = Some [1, 0] \<and>
       map (\<lambda>a. key (emp (two_nodes e1 e2 ! a))) [1, 0] = [(''HR'', 2), (''HR'', 1)] \<and>
       ((''HR'', 1) :: key) < (''HR'', 2)"
proof -
  let ?e1 = "hr_record n1 1 t1 p1" and ?e2 = "hr_record n2 2 t2 p2"
  let ?s1 = "snd (shuffle R 2 s)"
  let ?s2 = "snd (sample2 R 2 ?s1)"
  have lt: "key ?e1 < key ?e2" by (simp add: key_hr_record)
  have sh: "shuffle R 2 s = ([1, 0], ?s1)" using assms(2) by (cases "shuffle R 2 s") simp
  have b: "build_valid_bst_from_list R [] [?e1, ?e2] s = Some ((two_nodes ?e2 ?e1, Some 0), ?s1)"
    using lt sh by (rule build_two)
  have k: "key (emp (two_nodes ?e2 ?e1 ! 0)) = (''HR'', 2)" "left (two_nodes ?e2 ?e1 ! 0) = Some 1"
    "key (emp (two_nodes ?e2 ?e1 ! 1)) = (''HR'', 1)"
    by (simp_all add: two_nodes_def key_hr_record)
  have v: "violate_bst R (two_nodes ?e2 ?e1) (Some 0) ?s1 = Some (two_nodes ?e1 ?e2, Some 0, ?s2)"
    using assms(1) by (rule violate_two)
  have col: "collect_nodes_inorder (two_nodes ?e1 ?e2) (Some 0) [] = Some [1, 0]"
    using collect_nodes_inorder_tree[of "two_nodes ?e1 ?e2" "Some 0" two_shape "[]"]
      is_tree_two_nodes[of ?e1 ?e2]
    by (simp add: is_tree_def two_shape_def)
  have ks: "map (\<lambda>a. key (emp (two_nodes ?e1 ?e2 ! a))) [1, 0] = [(''HR'', 2), (''HR'', 1)]"
    by (simp add: two_nodes_def key_hr_record)
  have dec: "((''HR'', 1) :: key) < (''HR'', 2)" by simp
  have "\<exists>s1 s2.
       build_valid_bst_from_list R [] [?e1, ?e2] s = Some ((two_nodes ?e2 ?e1, Some 0), s1) \<and>
       key (emp (two_nodes ?e2 ?e1 ! 0)) = (''HR'', 2) \<and>
       left (two_nodes ?e2 ?e1 ! 0) = Some 1 \<and>
       key (emp (two_nodes ?e2 ?e1 ! 1)) = (''HR'', 1) \<and>
       serialize_tree (two_nodes ?e2 ?e1) (Some 0) = Some [employee_str ?e2, employee_str ?e1] \<and>
       violate_bst R (two_nodes ?e2 ?e1) (Some 0) s1 = Some (two_nodes ?e1 ?e2, Some 0, s2) \<and>
       collect_nodes_inorder (two_nodes ?e1 ?e2) (Some 0) [] = Some [1, 0] \<and>
       map (\<lambda>a. key (emp (two_nodes ?e1 ?e2 ! a))) [1, 0] = [(''HR'', 2), (''HR'', 1)] \<and>
       ((''HR'', 1) :: key) < (''HR'', 2)"
    by (rule exI[of _ ?s1], rule exI[of _ ?s2]) (intro conjI b k serialize_two v col ks dec)
  then show ?thesis by (simp only: Let_def)
qed

theorem two_records_scenario_witness:
  "rng_ok tape_rng \<and> fst (shuffle tape_rng 2 [1, 0]) = [1, 0] \<and>
   (let e1 = hr_record ''name1'' 1 ''Junior'' 1000; e2 = hr_record ''name2'' 2 ''Senior'' 2000 in
     \<exists>s1 s2.
       build_valid_bst_from_list tape_rng [] [e1, e2] [1, 0] = Some ((two_nodes e2 e1, Some 0), s1) \<and>
       key (emp (two_nodes e2 e1 ! 0)) = (''HR'', 2) \<and>
       left (two_nodes e2 e1 ! 0) = Some 1 \<and>
       key (emp (two_nodes e2 e1 ! 1)) = (''HR'', 1) \<and>
       serialize_tree (two_nodes e2 e1) (Some 0) = Some [employee_str e2, employee_str e1] \<and>
       violate_bst tape_rng (two_nodes e2 e1) (Some 0) s1 = Some (two_nodes e1 e2, Some 0, s2) \<and>
       collect_nodes_inorder (two_nodes e1 e2) (Some 0) [] = Some [1, 0] \<and>
       map (\<lambda>a. key (emp (two_nodes e1 e2 ! a))) [1, 0] = [(''HR'', 2), (''HR'', 1)] \<and>
       ((''HR'', 1) :: key) < (''HR'', 2))"
proof -
  have sh: "fst (shuffle tape_rng 2 [1, 0]) = [1, 0]"
    by (simp add: tape_rng_def numeral_2_eq_2)
  show ?thesis
    by (intro conjI tape_rng_ok sh two_records_scenario[OF tape_rng_ok sh])
qed

section \<open>The record generator\<close>

lemma generate_employee_step:
  "generate_employee R s used =
     (if candidate_key R s \<in> used then generate_employee R (snd (draw_candidate R s)) used
      else Some (fst (complete_record R (draw_candidate R s)),
                 insert (candidate_key R s) used,
                 snd (complete_record R (draw_candidate R s))))"
  by (subst generate_employee.simps)
     (simp add: candidate_key_def draw_candidate_def complete_record_def Let_def split: prod.splits)

lemma after_attempts_0: "after_attempts R 0 s = s"
  by (simp add: after_attempts_def)

lemma after_attempts_Suc:
  "after_attempts R (Suc m) s = after_attempts R m (snd (draw_candidate R s))"
proof -
  define f where "f = (\<lambda>s. snd (draw_candidate R s))"
  have "(f ^^ Suc m) s = (f ^^ m) (f s)" by (simp only: funpow_Suc_right o_apply)
  then show ?thesis by (simp only: after_attempts_def f_def)
qed

lemma generate_employee_attempts:
  assumes "generate_employee R s used = Some y"
  shows "\<exists>n. (\<forall>m < n. candidate_key R (after_attempts R m s) \<in> used) \<and>
      candidate_key R (after_attempts R n s) \<notin> used \<and>
      y = (fst (complete_record R (draw_candidate R (after_attempts R n s))),
           insert (candidate_key R (after_attempts R n s)) used,
           snd (complete_record R (draw_candidate R (after_attempts R n s))))"
proof (rule generate_employee.raw_induct[where P = "\<lambda>R s used y.
    \<exists>n. (\<forall>m < n. candidate_key R (after_attempts R m s) \<in> used) \<and>
      candidate_key R (after_attempts R n s) \<notin> used \<and>
      y = (fst (complete_record R (draw_candidate R (after_attempts R n s))),
           insert (candidate_key R (after_attempts R n s)) used,
           snd (complete_record R (draw_candidate R (after_attempts R n s))))", OF _ assms], goal_cases)
  case (1 gen R s used y)
  have body: "(if candidate_key R s \<in> used then gen R (snd (draw_candidate R s)) used
      else Some (fst (complete_record R (draw_candidate R s)),
                 insert (candidate_key R s) used,
                 snd (complete_record R (draw_candidate R s)))) = Some y"
    using 1(2)
    by (auto simp: candidate_key_def draw_candidate_def complete_record_def Let_def
        split: prod.splits if_splits)
  show ?case
  proof (cases "candidate_key R s \<in> used")
    case True
    then have "gen R (snd (draw_candidate R s)) used = Some y" using body by simp
    from 1(1)[OF this] obtain n where
      rej: "\<forall>m < n. candidate_key R (after_attempts R m (snd (draw_candidate R s))) \<in> used" and
      acc: "candidate_key R (after_attempts R n (snd (draw_candidate R s))) \<notin> used" and
      y: "y = (fst (complete_record R (draw_candidate R (after_attempts R n (snd (draw_candidate R s))))),
           insert (candidate_key R (after_attempts R n (snd (draw_candidate R s)))) used,
           snd (complete_record R (draw_candidate R (after_attempts R n (snd (draw_candidate R s))))))"
      by (elim exE conjE) (rule that)
    have rej': "\<forall>m < Suc n. candidate_key R (after_attempts R m s) \<in> used"
    proof (intro allI impI)
      fix m assume "m < Suc n"
      then show "candidate_key R (after_attempts R m s) \<in> used"
        using True rej by (cases m) (simp_all add: after_attempts_Suc after_attempts_0)
    qed
    have acc': "candidate_key R (after_attempts R (Suc n) s) \<notin> used"
      unfolding after_attempts_Suc by (rule acc)
    have y': "y = (fst (complete_record R (draw_candidate R (after_attempts R (Suc n) s))),
           insert (candidate_key R (after_attempts R (Suc n) s)) used,
           snd (complete_record R (draw_candidate R (after_attempts R (Suc n) s))))"
      unfolding after_attempts_Suc by (rule y)
    show ?thesis
      by (rule exI[of _ "Suc n"]) (intro conjI rej' acc' y')
  next
    case False
    then have "y = (fst (complete_record R (draw_candidate R s)),
                 insert (candidate_key R s) used,
                 snd (complete_record R (draw_candidate R s)))"
      using body by simp
    then show ?thesis using False by (intro exI[of _ 0]) (simp add: after_attempts_def)
  qed
qed

lemma random_string_props:
  assumes "rng_ok R"
  shows "length (fst (random_string R s n)) = n \<and> set (fst (random_string R s n)) \<subseteq> set ascii_lowercase"
proof (induction n arbitrary: s)
  case 0
  then show ?case by simp
next
  case (Suc n)
  obtain i s1 where c: "choice R (length ascii_lowercase) s = (i, s1)"
    by (cases "choice R (length ascii_lowercase) s")
  have "0 < length ascii_lowercase" by (simp add: ascii_lowercase_def)
  then have "fst (choice R (length ascii_lowercase) s) < length ascii_lowercase"
    using assms unfolding rng_ok_def by blast
  then have "ascii_lowercase ! i \<in> set ascii_lowercase" using c by simp
  moreover obtain cs s2 where rs: "random_string R s1 n = (cs, s2)"
    by (cases "random_string R s1 n")
  ultimately show ?case using Suc[of s1] c by simp
qed

lemma draw_candidate_ranges:
  assumes "rng_ok R" and "draw_candidate R s = ((nm, dept, ident), s4)"
  shows "1 \<le> length nm \<and> length nm \<le> 5 \<and> set nm \<subseteq> set ascii_lowercase \<and>
      dept \<in> set DEPARTMENTS \<and> 1 \<le> ident \<and> ident \<le> 200"
proof -
  obtain len s1 where a: "randint R 1 5 s = (len, s1)" by (cases "randint R 1 5 s")
  obtain nm' s2 where b: "random_string R s1 (nat len) = (nm', s2)"
    by (cases "random_string R s1 (nat len)")
  obtain d s3 where c: "choice R (length DEPARTMENTS) s2 = (d, s3)"
    by (cases "choice R (length DEPARTMENTS) s2")
  obtain ident' s4' where e: "randint R 1 200 s3 = (ident', s4')" by (cases "randint R 1 200 s3")
  from assms(2) have eq: "nm = nm'" "dept = DEPARTMENTS ! d" "ident = ident'"
    by (simp_all add: draw_candidate_def a b c e)
  have "1 \<le> fst (randint R 1 5 s) \<and> fst (randint R 1 5 s) \<le> 5"
    using assms(1) unfolding rng_ok_def by simp
  then have len: "1 \<le> len" "len \<le> 5" using a by simp_all
  have "length (fst (random_string R s1 (nat len))) = nat len"
    "set (fst (random_string R s1 (nat len))) \<subseteq> set ascii_lowercase"
    using random_string_props[OF assms(1), of s1 "nat len"] by simp_all
  then have nm: "length nm' = nat len" "set nm' \<subseteq> set ascii_lowercase" using b by simp_all
  have "0 < length DEPARTMENTS" by (simp add: DEPARTMENTS_def)
  then have "fst (choice R (length DEPARTMENTS) s2) < length DEPARTMENTS"
    using assms(1) unfolding rng_ok_def by blast
  then have d: "DEPARTMENTS ! d \<in> set DEPARTMENTS" using c by simp
  have "1 \<le> fst (randint R 1 200 s3) \<and> fst (randint R 1 200 s3) \<le> 200"
    using assms(1) unfolding rng_ok_def by simp
  then have ident: "1 \<le> ident'" "ident' \<le> 200" using e by simp_all
  have "1 \<le> nat len" "nat len \<le> 5" using len by linarith+
  then show ?thesis using eq nm d ident by simp
qed

lemma complete_record_ranges:
  assumes "rng_ok R" and "complete_record R ((nm, dept, ident), s4) = (e, s6)"
  shows "name e = nm \<and> department e = dept \<and> id_in_department e = ident \<and>
      job_title e \<in> set JOB_TITLES \<and> 1000 \<le> salary e \<and> salary e \<le> 5000"
proof -
  obtain j s5 where a: "choice R (length JOB_TITLES) s4 = (j, s5)"
    by (cases "choice R (length JOB_TITLES) s4")
  obtain sal s6' where b: "randint R 1000 5000 s5 = (sal, s6')" by (cases "randint R 1000 5000 s5")
  from assms(2) have e: "e = \<lparr>name = nm, department = dept, id_in_department = ident,
      job_title = JOB_TITLES ! j, salary = sal\<rparr>"
    by (simp add: complete_record_def a b)
  have "0 < length JOB_TITLES" by (simp add: JOB_TITLES_def)
  then have "fst (choice R (length JOB_TITLES) s4) < length JOB_TITLES"
    using assms(1) unfolding rng_ok_def by blast
  then have j: "JOB_TITLES ! j \<in> set JOB_TITLES" using a by simp
  have "1000 \<le> fst (randint R 1000 5000 s5) \<and> fst (randint R 1000 5000 s5) \<le> 5000"
    using assms(1) unfolding rng_ok_def by simp
  then have "1000 \<le> sal" "sal \<le> 5000" using b by simp_all
  then show ?thesis using e j by simp
qed

text \<open>
  C5, as amended. Whenever the generator returns, the key of the returned record was not
  in \<open>used_keys\<close> at the start of the call and \<open>used_keys\<close> has grown by exactly this key;
  the department is one of the 7 fixed values, the id lies in [1,200], the name is a
  lowercase string of length 1 to 5, the job title is one of the 6 fixed values and the
  salary lies in [1000,5000]. The order of the draws: every attempt draws the name first
  (its length, then its characters), then the department and the id; attempts are repeated
  as long as the key is in use (here \<open>n\<close> times); the key of the next attempt is
  committed, and then the job title and the salary are drawn.
\<close>

theorem generator_returns_fresh_record:
  assumes "rng_ok R" and "generate_employee R s used = Some (e, used', s')"
  shows "key e \<notin> used \<and> used' = insert (key e) used \<and>
      department e \<in> set DEPARTMENTS \<and> length DEPARTMENTS = 7 \<and> distinct DEPARTMENTS \<and>
      1 \<le> id_in_department e \<and> id_in_department e \<le> 200 \<and>
      1 \<le> length (name e) \<and> length (name e) \<le> 5 \<and> set (name e) \<subseteq> set ascii_lowercase \<and>
      job_title e \<in> set JOB_TITLES \<and> length JOB_TITLES = 6 \<and> distinct JOB_TITLES \<and>
      1000 \<le> salary e \<and> salary e \<le> 5000 \<and>
      (\<exists>n. (\<forall>m < n. candidate_key R (after_attempts R m s) \<in> used) \<and>
           fst (draw_candidate R (after_attempts R n s)) = (name e, department e, id_in_department e) \<and>
           complete_record R (draw_candidate R (after_attempts R n s)) = (e, s'))"
proof -
  from generate_employee_attempts[OF assms(2)] obtain n where
    rej: "\<forall>m < n. candidate_key R (after_attempts R m s) \<in> used" and
    acc: "candidate_key R (after_attempts R n s) \<notin> used" and
    y: "(e, used', s') = (fst (complete_record R (draw_candidate R (after_attempts R n s))),
           insert (candidate_key R (after_attempts R n s)) used,
           snd (complete_record R (draw_candidate R (after_attempts R n s))))"
    by (elim exE conjE) (rule that)
  let ?s = "after_attempts R n s"
  obtain nm dept ident s4 where dc: "draw_candidate R ?s = ((nm, dept, ident), s4)"
    by (metis surj_pair)
  have ck: "candidate_key R ?s = (dept, ident)" by (simp add: candidate_key_def dc)
  have cr: "complete_record R ((nm, dept, ident), s4) = (e, s')" using y by (simp add: dc)
  have grown: "used' = insert (dept, ident) used" using y by (simp add: ck)
  note r1 = draw_candidate_ranges[OF assms(1) dc]
  note r2 = complete_record_ranges[OF assms(1) cr]
  have k: "key e = (dept, ident)" using r2 by (simp add: key_def)
  have order: "\<exists>n. (\<forall>m < n. candidate_key R (after_attempts R m s) \<in> used) \<and>
           fst (draw_candidate R (after_attempts R n s)) = (name e, department e, id_in_department e) \<and>
           complete_record R (draw_candidate R (after_attempts R n s)) = (e, s')"
    using rej dc cr r2 by (intro exI[of _ n]) simp
  have tables: "length DEPARTMENTS = 7" "distinct DEPARTMENTS" "length JOB_TITLES = 6" "distinct JOB_TITLES"
    by (simp_all add: DEPARTMENTS_def JOB_TITLES_def)
  show ?thesis
    using acc grown r1 r2 k ck tables order by simp
qed

lemma tape_draw_accepted:
  "draw_candidate tape_rng [1, 2, 3, 0, 9, 2, 7] = ((''cd'', ''HR'', 10), [2, 7])"
  by (simp add: draw_candidate_def tape_rng_def DEPARTMENTS_def ascii_lowercase_def
      numeral_2_eq_2)

lemma tape_draw_rejected:
  "draw_candidate tape_rng [0, 0, 1, 4, 1, 2, 3, 0, 9, 2, 7] = ((''a'', ''Finance'', 5), [1, 2, 3, 0, 9, 2, 7])"
  by (simp add: draw_candidate_def tape_rng_def DEPARTMENTS_def ascii_lowercase_def)

lemma tape_generate:
  "generate_employee tape_rng [0, 0, 1, 4, 1, 2, 3, 0, 9, 2, 7] {(''Finance'', 5)} =
     Some (\<lparr>name = ''cd'', department = ''HR'', id_in_department = 10,
             job_title = ''Senior'', salary = 1007\<rparr>,
           {(''HR'', 10), (''Finance'', 5)}, [])"
  apply (subst generate_employee_step)
  apply (simp only: candidate_key_def tape_draw_rejected fst_conv snd_conv)
  apply (subst generate_employee_step)
  apply (simp only: candidate_key_def tape_draw_accepted fst_conv snd_conv)
  apply (simp add: complete_record_def tape_rng_def JOB_TITLES_def)
  done

theorem generator_returns_fresh_record_witness:
  "rng_ok tape_rng \<and>
   generate_employee tape_rng [0, 0, 1, 4, 1, 2, 3, 0, 9, 2, 7] {(''Finance'', 5)} =
     Some (\<lparr>name = ''cd'', department = ''HR'', id_in_department = 10,
             job_title = ''Senior'', salary = 1007\<rparr>,
           {(''HR'', 10), (''Finance'', 5)}, []) \<and>
   (\<exists>n. (\<forall>m < n. candidate_key tape_rng (after_attempts tape_rng m [0, 0, 1, 4, 1, 2, 3, 0, 9, 2, 7])
              \<in> {(''Finance'', 5)}) \<and>
        fst (draw_candidate tape_rng (after_attempts tape_rng n [0, 0, 1, 4, 1, 2, 3, 0, 9, 2, 7])) =
          (''cd'', ''HR'', 10) \<and>
        complete_record tape_rng
            (draw_candidate tape_rng (after_attempts tape_rng n [0, 0, 1, 4, 1, 2, 3, 0, 9, 2, 7])) =
          (\<lparr>name = ''cd'', department = ''HR'', id_in_department = 10,
             job_title = ''Senior'', salary = 1007\<rparr>, []))"
  using generator_returns_fresh_record[OF tape_rng_ok tape_generate] tape_rng_ok tape_generate
  by simp

text \<open>
  C5 as stated has the name drawn after the key is committed. On the tape
  0, 0, 1, 4, 2, 7 the code spends the first two numbers on the name and returns the
  record a,Finance,5,Senior,1007; drawing in the stated order spends them on the key and
  returns ec,HR,1,Midlevel,1000.
\<close>

theorem generator_sampling_order_counterexample:
  "generate_employee tape_rng order_tape {} =
     Some (\<lparr>name = ''a'', department = ''Finance'', id_in_department = 5,
             job_title = ''Senior'', salary = 1007\<rparr>, {(''Finance'', 5)}, []) \<and>
   generate_as_specified tape_rng order_tape {} =
     Some (\<lparr>name = ''ec'', department = ''HR'', id_in_department = 1,
             job_title = ''Midlevel'', salary = 1000\<rparr>, {(''HR'', 1)}, []) \<and>
   generate_employee tape_rng order_tape {} \<noteq> generate_as_specified tape_rng order_tape {}"
proof -
  have dc: "draw_candidate tape_rng order_tape = ((''a'', ''Finance'', 5), [2, 7])"
    by (simp add: order_tape_def draw_candidate_def tape_rng_def DEPARTMENTS_def ascii_lowercase_def)
  have code: "generate_employee tape_rng order_tape {} =
     Some (\<lparr>name = ''a'', department = ''Finance'', id_in_department = 5,
             job_title = ''Senior'', salary = 1007\<rparr>, {(''Finance'', 5)}, [])"
    by (subst generate_employee_step, simp only: candidate_key_def dc fst_conv snd_conv)
       (simp add: complete_record_def tape_rng_def JOB_TITLES_def)
  have spec: "generate_as_specified tape_rng order_tape {} =
     Some (\<lparr>name = ''ec'', department = ''HR'', id_in_department = 1,
             job_title = ''Midlevel'', salary = 1000\<rparr>, {(''HR'', 1)}, [])"
    by (subst generate_as_specified.simps)
       (simp add: order_tape_def tape_rng_def DEPARTMENTS_def JOB_TITLES_def ascii_lowercase_def
          numeral_2_eq_2 Let_def)
  show ?thesis unfolding code spec by simp
qed

subsection \<open>Record lines without spaces\<close>

lemma str_nat_digits: "set (str_nat n) \<subseteq> set ''0123456789''"
proof (induction n rule: str_nat.induct)
  case (1 n)
  have d: "\<And>d. d < 10 \<Longrightarrow> digit_char d \<in> set ''0123456789''"
    unfolding digit_char_def by (rule nth_mem) simp
  show ?case
  proof (cases "n < 10")
    case True
    then show ?thesis using d[of n] by (subst str_nat.simps) simp
  next
    case False
    have "digit_char (n mod 10) \<in> set ''0123456789''" by (rule d) simp
    then show ?thesis using False 1 by (subst str_nat.simps) simp
  qed
qed

lemma str_int_no_space: "CHR '' '' \<notin> set (str_int i)"
proof -
  have "CHR '' '' \<notin> set ''0123456789''" by simp
  then have "\<And>n. CHR '' '' \<notin> set (str_nat n)" using str_nat_digits by blast
  then show ?thesis by (simp add: str_int_def)
qed

text \<open>No record line of a generated record has a space in it.\<close>

lemma generated_record_no_space:
  assumes "rng_ok R" and "generate_employee R s used = Some (e, used', s')"
  shows "CHR '' '' \<notin> set (employee_str e)"
proof -
  from generate_employee_attempts[OF assms(2)] obtain n where
    y: "(e, used', s') = (fst (complete_record R (draw_candidate R (after_attempts R n s))),
           insert (candidate_key R (after_attempts R n s)) used,
           snd (complete_record R (draw_candidate R (after_attempts R n s))))"
    by (elim exE conjE) (rule that)
  obtain nm dept ident s4 where dc: "draw_candidate R (after_attempts R n s) = ((nm, dept, ident), s4)"
    by (metis surj_pair)
  have cr: "complete_record R ((nm, dept, ident), s4) = (e, s')" using y by (simp add: dc)
  note r1 = draw_candidate_ranges[OF assms(1) dc]
  note r2 = complete_record_ranges[OF assms(1) cr]
  have "CHR '' '' \<notin> set ascii_lowercase" by (simp add: ascii_lowercase_def)
  then have nm: "CHR '' '' \<notin> set (name e)" using r1 r2 by auto
  have "\<forall>d \<in> set DEPARTMENTS. CHR '' '' \<notin> set d" by (simp add: DEPARTMENTS_def)
  then have dp: "CHR '' '' \<notin> set (department e)" using r1 r2 by auto
  have "\<forall>j \<in> set JOB_TITLES. CHR '' '' \<notin> set j" by (simp add: JOB_TITLES_def)
  then have jt: "CHR '' '' \<notin> set (job_title e)" using r2 by auto
  show ?thesis using nm dp jt by (simp add: employee_str_def str_int_no_space)
qed

section \<open>The fixture of one record\<close>

lemma violate_bst_small:
  assumes "tree_at h root t" and "size t \<le> 1"
  shows "violate_bst R h root s = Some (h, root, s)"
proof -
  have "collect_nodes_inorder h root [] = Some (inorder t)"
    using collect_nodes_inorder_tree[OF assms(1), of "[]"] by simp
  then show ?thesis using assms(2) by (simp add: violate_bst_def)
qed

lemma generate_first_employee:
  "generate_employee R s {} =
     Some (fst (complete_record R (draw_candidate R s)), {candidate_key R s},
           snd (complete_record R (draw_candidate R s)))"
  by (subst generate_employee_step) simp

lemma generate_one_employee:
  "generate_employees R (Suc 0) s {} =
     Some ([fst (complete_record R (draw_candidate R s))], {candidate_key R s},
           snd (complete_record R (draw_candidate R s)))"
  by (simp add: generate_first_employee)

lemma shuffle_one:
  assumes "rng_ok R"
  shows "fst (shuffle R (Suc 0) s) = [0]"
proof -
  have "mset (fst (shuffle R (Suc 0) s)) = mset [0..<Suc 0]"
    using assms unfolding rng_ok_def by blast
  then have "mset (fst (shuffle R (Suc 0) s)) = {#0#}" by simp
  then show ?thesis by (simp add: mset_single_iff_right)
qed

lemma build_one:
  assumes "rng_ok R"
  shows "build_valid_bst_from_list R [] [e] s = Some (([Node_init e], Some 0), snd (shuffle R 1 s))"
proof -
  have ins: "insert_node [] None e = Some ([Node_init e], 0)"
    by (subst insert_node.simps) simp
  obtain perm s' where sh: "shuffle R (Suc 0) s = (perm, s')" by (cases "shuffle R (Suc 0) s")
  then have perm: "perm = [0]" using shuffle_one[OF assms, of s] by simp
  show ?thesis
    by (simp add: build_valid_bst_from_list_def sh perm ins)
qed

lemma serialize_one: "serialize_tree [Node_init e] (Some 0) = Some [employee_str e]"
proof -
  have ta: "tree_at [Node_init e] (Some 0) (Node Leaf 0 Leaf)" by simp
  show ?thesis
    unfolding serialize_tree_levels[OF ta]
    by (simp add: level_tokens_def trim_slots_def render_def)
qed

text \<open>
  C7. A fixture of exactly 1 record marked invalid: the generator and the builder return,
  the tree is a single node (a valid BST), the corruptor returns it unchanged, and the
  fixture is written with the record line as the whole of input.txt and the single line
  \<open>false\<close> in output.txt. The same call marked valid writes the same input.txt, ends in
  the same generator state and differs only in output.txt.
\<close>

theorem single_record_invalid_fixture:
  assumes "rng_ok R" and "lo \<le> hi" and "fst (randint R lo hi s) = 1"
  shows "\<exists>e s1 s2 s3 fs'.
      generate_employees R 1 s1 {} = Some ([e], {key e}, s2) \<and>
      build_valid_bst_from_list R [] [e] s2 = Some (([Node_init e], Some 0), s3) \<and>
      is_tree [Node_init e] (Some 0) (Node Leaf 0 Leaf) \<and>
      bst (keys [Node_init e] (Node Leaf 0 Leaf)) \<and>
      violate_bst R [Node_init e] (Some 0) s3 = Some ([Node_init e], Some 0, s3) \<and>
      serialize_tree [Node_init e] (Some 0) = Some [employee_str e] \<and>
      generate_testcase R False test_index s (Some (lo, hi)) fs = Some (Inr (fs', s3)) \<and>
      files fs' (test_dir test_index @ ''/input.txt'') = Some (employee_str e @ [CHR 0x0A]) \<and>
      files fs' (test_dir test_index @ ''/output.txt'') = Some (''false'' @ [CHR 0x0A]) \<and>
      generate_testcase R True test_index s (Some (lo, hi)) fs =
        Some (Inr (fs'\<lparr>files := (files fs')(test_dir test_index @ ''/output.txt'' \<mapsto> ''true'' @ [CHR 0x0A])\<rparr>, s3))"
proof -
  obtain s1 where ri: "randint R lo hi s = (1, s1)"
    using assms(3) by (cases "randint R lo hi s") simp
  obtain e s2 where cr: "complete_record R (draw_candidate R s1) = (e, s2)"
    by (cases "complete_record R (draw_candidate R s1)")
  obtain s3 where s3: "s3 = snd (shuffle R 1 s2)" by simp
  let ?s1 = s1 and ?e = e and ?s2 = s2 and ?s3 = s3
  let ?dir = "test_dir test_index"
  let ?fs = "\<lambda>verdict. fs\<lparr>dirs := insert ?dir (insert TESTS_FOLDER (dirs fs)),
      files := (files fs)(?dir @ ''/input.txt'' \<mapsto> write_lines [employee_str ?e],
                          ?dir @ ''/output.txt'' \<mapsto> verdict)\<rparr>"
  obtain nm dept ident s4 where dc: "draw_candidate R ?s1 = ((nm, dept, ident), s4)"
    by (metis surj_pair)
  have "name ?e = nm \<and> department ?e = dept \<and> id_in_department ?e = ident"
    using complete_record_ranges[OF assms(1), of nm dept ident s4 ?e ?s2] cr by (simp add: dc)
  then have k: "key ?e = candidate_key R ?s1" by (simp add: key_def candidate_key_def dc)
  have ge1: "generate_employee R ?s1 {} = Some (?e, {key ?e}, ?s2)"
    using generate_first_employee[of R ?s1] by (simp add: k cr)
  have ge0: "generate_employees R (Suc 0) ?s1 {} = Some ([?e], {key ?e}, ?s2)"
    using generate_one_employee[of R ?s1] by (simp add: k cr)
  then have ge: "generate_employees R 1 ?s1 {} = Some ([?e], {key ?e}, ?s2)" by simp
  have b: "build_valid_bst_from_list R [] [?e] ?s2 = Some (([Node_init ?e], Some 0), ?s3)"
    unfolding s3 using assms(1) by (rule build_one)
  have ta: "tree_at [Node_init ?e] (Some 0) (Node Leaf 0 Leaf)" by simp
  have t: "is_tree [Node_init ?e] (Some 0) (Node Leaf 0 Leaf)" by (simp add: is_tree_def)
  have bs: "bst (keys [Node_init ?e] (Node Leaf 0 Leaf))" by (simp add: keys_def)
  have v: "violate_bst R [Node_init ?e] (Some 0) ?s3 = Some ([Node_init ?e], Some 0, ?s3)"
    using ta by (rule violate_bst_small) simp
  have ser: "serialize_tree [Node_init ?e] (Some 0) = Some [employee_str ?e]"
    by (rule serialize_one)
  have ne: "\<not> snd (lo, hi) < fst (lo, hi)" using assms(2) by simp
  have gF: "generate_testcase R False test_index s (Some (lo, hi)) fs =
      Some (Inr (?fs (''false'' @ [CHR 0x0A]), ?s3))"
    unfolding generate_testcase_def using assms(2)
    by (simp add: ri ge1 b v ser)
  have gT: "generate_testcase R True test_index s (Some (lo, hi)) fs =
      Some (Inr (?fs (''true'' @ [CHR 0x0A]), ?s3))"
    unfolding generate_testcase_def using assms(2)
    by (simp add: ri ge1 b v ser)
  have inp: "files (?fs (''false'' @ [CHR 0x0A])) (?dir @ ''/input.txt'') = Some (employee_str ?e @ [CHR 0x0A])"
    by (simp add: write_lines_def)
  have out: "files (?fs (''false'' @ [CHR 0x0A])) (?dir @ ''/output.txt'') = Some (''false'' @ [CHR 0x0A])"
    by simp
  have same: "(?fs (''false'' @ [CHR 0x0A]))\<lparr>files := (files (?fs (''false'' @ [CHR 0x0A])))
        (?dir @ ''/output.txt'' \<mapsto> ''true'' @ [CHR 0x0A])\<rparr> = ?fs (''true'' @ [CHR 0x0A])"
    by simp
  show ?thesis
    apply (rule exI[of _ ?e], rule exI[of _ ?s1], rule exI[of _ ?s2], rule exI[of _ ?s3])
    apply (rule exI[of _ "?fs (''false'' @ [CHR 0x0A])"])
    apply (intro conjI ge b t bs v ser gF inp out)
    apply (simp only: same gT)
    done
qed

theorem single_record_invalid_fixture_witness:
  "rng_ok tape_rng \<and> (1::int) \<le> 1 \<and> fst (randint tape_rng 1 1 [3, 1, 4, 1, 5, 9, 2, 6]) = 1 \<and>
   (\<exists>e s1 s2 s3 fs'.
      generate_employees tape_rng 1 s1 {} = Some ([e], {key e}, s2) \<and>
      build_valid_bst_from_list tape_rng [] [e] s2 = Some (([Node_init e], Some 0), s3) \<and>
      is_tree [Node_init e] (Some 0) (Node Leaf 0 Leaf) \<and>
      bst (keys [Node_init e] (Node Leaf 0 Leaf)) \<and>
      violate_bst tape_rng [Node_init e] (Some 0) s3 = Some ([Node_init e], Some 0, s3) \<and>
      serialize_tree [Node_init e] (Some 0) = Some [employee_str e] \<and>
      generate_testcase tape_rng False 9 [3, 1, 4, 1, 5, 9, 2, 6] (Some (1, 1)) \<lparr>dirs = {}, files = Map.empty\<rparr> =
        Some (Inr (fs', s3)) \<and>
      files fs' (test_dir 9 @ ''/input.txt'') = Some (employee_str e @ [CHR 0x0A]) \<and>
      files fs' (test_dir 9 @ ''/output.txt'') = Some (''false'' @ [CHR 0x0A]) \<and>
      generate_testcase tape_rng True 9 [3, 1, 4, 1, 5, 9, 2, 6] (Some (1, 1)) \<lparr>dirs = {}, files = Map.empty\<rparr> =
        Some (Inr (fs'\<lparr>files := (files fs')(test_dir 9 @ ''/output.txt'' \<mapsto> ''true'' @ [CHR 0x0A])\<rparr>, s3)))"
proof -
  have le: "(1::int) \<le> 1" by simp
  have ri: "fst (randint tape_rng 1 1 [3, 1, 4, 1, 5, 9, 2, 6]) = 1" by (simp add: tape_rng_def)
  show ?thesis
    by (intro conjI tape_rng_ok le ri single_record_invalid_fixture[OF tape_rng_ok le ri])
qed

end
